theory Spec2Isabelle
  imports Main "HOL-Library.AList" "HOL-Library.Sublist"
begin

section \<open>The 5-bit Baudot codec\<close>

text \<open>
  The repository holds five generations of one script. \<^verbatim>\<open>main.py\<close> is the bare codec
  (symbol table, bit packing, stop-word scan). \<^verbatim>\<open>1.5/1.53.py\<close> adds the abbreviation
  dictionary read from \<^verbatim>\<open>abv.txt\<close>, the validator with line and column, and zlib
  compression; its table, its \<^verbatim>\<open>bits_to_bytes\<close>, its \<^verbatim>\<open>bytes_to_bits\<close> and the body of
  its scanning loop are the same text as in \<^verbatim>\<open>main.py\<close>.

  Python strings are modelled as lists of \<^typ>\<open>char\<close>, read as the code points below
  256; bit strings are strings over \<open>0\<close> and \<open>1\<close>, as in the source; a byte is a
  \<^typ>\<open>nat\<close>; a raised exception is the \<open>Inl\<close> of a sum.
\<close>

subsection \<open>Symbol table\<close>

datatype py_error = ValueError | KeyError

definition BAUDOT_TABLE :: "(char \<times> string) list" where
  "BAUDOT_TABLE =
    [(CHR ''a'', ''00011''), (CHR ''b'', ''11001''), (CHR ''c'', ''01110''), (CHR ''d'', ''01001''),
     (CHR ''e'', ''00001''), (CHR ''f'', ''01101''), (CHR ''g'', ''11010''), (CHR ''h'', ''10100''),
     (CHR ''i'', ''00110''), (CHR ''j'', ''01011''), (CHR ''k'', ''01111''), (CHR ''l'', ''10010''),
     (CHR ''m'', ''11100''), (CHR ''n'', ''01100''), (CHR ''o'', ''11000''), (CHR ''p'', ''10110''),
     (CHR ''q'', ''10111''), (CHR ''r'', ''01010''), (CHR ''s'', ''00101''), (CHR ''t'', ''10000''),
     (CHR ''u'', ''00111''), (CHR ''v'', ''11110''), (CHR ''w'', ''10011''), (CHR ''x'', ''11101''),
     (CHR ''y'', ''10101''), (CHR ''z'', ''10001''), (CHR '' '', ''00100''),
     (CHR ''1'', ''00010''), (CHR ''2'', ''11011''), (CHR ''3'', ''11111'')]"

text \<open>
  A dict is an association list in insertion order, looked up with \<^const>\<open>map_of\<close>.
  \<^verbatim>\<open>{v: k for k, v in d.items()}\<close> stores the swapped pairs in order, a later pair
  overwriting an earlier one with the same key; it builds \<^verbatim>\<open>REVERSE_TABLE\<close> here and
  \<^verbatim>\<open>REVERSE_SHORTCUTS\<close> below.
\<close>

definition reverse_dict :: "('a \<times> 'b) list \<Rightarrow> ('b \<times> 'a) list" where
  "reverse_dict d = fold (\<lambda>(k, v) r. AList.update v k r) d []"

definition REVERSE_TABLE :: "(string \<times> char) list" where
  "REVERSE_TABLE = reverse_dict BAUDOT_TABLE"

definition STOP_WORD :: string where
  "STOP_WORD = ''stop''"

subsection \<open>Bit packing\<close>

text \<open>
  \<^verbatim>\<open>int(byte, 2)\<close> on a string of binary digits. The empty string and a character that is
  no binary digit raise \<^verbatim>\<open>ValueError\<close>. (Python's \<^verbatim>\<open>int\<close> also reads a sign, blanks,
  underscores and a \<^verbatim>\<open>0b\<close> prefix; \<^verbatim>\<open>bits_to_bytes\<close> is only ever called on table codes
  followed by \<open>0\<close>s, and the model is exact on digit strings.)
\<close>

definition bit_value :: "char \<Rightarrow> nat option" where
  "bit_value c = (if c = CHR ''0'' then Some 0 else if c = CHR ''1'' then Some 1 else None)"

fun int2_digits :: "nat \<Rightarrow> string \<Rightarrow> nat option" where
  "int2_digits acc [] = Some acc"
| "int2_digits acc (c # cs) =
     (case bit_value c of None \<Rightarrow> None | Some d \<Rightarrow> int2_digits (2 * acc + d) cs)"

definition int_base2 :: "string \<Rightarrow> py_error + nat" where
  "int_base2 s =
     (if s = [] then Inl ValueError
      else case int2_digits 0 s of None \<Rightarrow> Inl ValueError | Some n \<Rightarrow> Inr n)"

text \<open>The padding loop \<^verbatim>\<open>while len(bitstring) % 8 != 0: bitstring += "0"\<close>.\<close>

function pad_loop :: "string \<Rightarrow> string" where
  "pad_loop bitstring =
     (if length bitstring mod 8 \<noteq> 0 then pad_loop (bitstring @ ''0'') else bitstring)"
  by pat_completeness auto
termination
proof (relation "measure (\<lambda>b. (8 - length b mod 8) mod 8)")
  show "wf (measure (\<lambda>b::string. (8 - length b mod 8) mod 8))"
    by simp
next
  fix bitstring :: string
  assume "length bitstring mod 8 \<noteq> 0"
  then have "(8 - Suc (length bitstring) mod 8) mod 8 < (8 - length bitstring mod 8) mod 8"
    by (simp add: mod_Suc) arith
  then show "(bitstring @ ''0'', bitstring) \<in> measure (\<lambda>b. (8 - length b mod 8) mod 8)"
    by simp
qed

declare pad_loop.simps [simp del]

text \<open>
  The loop \<^verbatim>\<open>for i in range(0, len(bitstring), 8)\<close>; \<^verbatim>\<open>bytearray.append\<close> raises
  \<^verbatim>\<open>ValueError\<close> on a value outside \<open>0..255\<close>.
\<close>

function bytes_loop :: "string \<Rightarrow> nat \<Rightarrow> nat list \<Rightarrow> py_error + nat list" where
  "bytes_loop bitstring i byte_array =
     (if i < length bitstring then
        (case int_base2 (take 8 (drop i bitstring)) of
           Inl e \<Rightarrow> Inl e
         | Inr v \<Rightarrow>
             if v < 256 then bytes_loop bitstring (i + 8) (byte_array @ [v])
             else Inl ValueError)
      else Inr byte_array)"
  by pat_completeness auto
termination
  by (relation "measure (\<lambda>(b, i, a). length b - i)") auto

declare bytes_loop.simps [simp del]

definition bits_to_bytes :: "string \<Rightarrow> py_error + nat list" where
  "bits_to_bytes bitstring = bytes_loop (pad_loop bitstring) 0 []"

text \<open>
  \<^verbatim>\<open>f'{byte:08b}'\<close>: the binary digits of the number, most significant first, with
  \<open>0\<close>s in front up to a width of 8 (and more than 8 digits for a number above 255).
\<close>

definition digit_char :: "nat \<Rightarrow> char" where
  "digit_char d = (if d = 0 then CHR ''0'' else CHR ''1'')"

fun bin_digits :: "nat \<Rightarrow> string" where
  "bin_digits n = (if n < 2 then [digit_char n] else bin_digits (n div 2) @ [digit_char (n mod 2)])"

declare bin_digits.simps [simp del]

definition format_08b :: "nat \<Rightarrow> string" where
  "format_08b byte = (let s = bin_digits byte in replicate (8 - length s) CHR ''0'' @ s)"

definition bytes_to_bits :: "nat list \<Rightarrow> string" where
  "bytes_to_bits byte_data = concat (map format_08b byte_data)"

subsection \<open>Encoding and the stop-word scan (main.py)\<close>

text \<open>
  \<^verbatim>\<open>for char in message: bitstring += BAUDOT_TABLE[char]\<close>. In \<^verbatim>\<open>main.py\<close> a character
  outside the table raises \<^verbatim>\<open>ValueError\<close> by an explicit test; a bare subscript raises
  \<^verbatim>\<open>KeyError\<close>. The first argument is the exception of the call site.
\<close>

fun append_codes :: "py_error \<Rightarrow> string \<Rightarrow> string \<Rightarrow> py_error + string" where
  "append_codes e [] bitstring = Inr bitstring"
| "append_codes e (char # rest) bitstring =
     (case map_of BAUDOT_TABLE char of
        None \<Rightarrow> Inl e
      | Some code \<Rightarrow> append_codes e rest (bitstring @ code))"

text \<open>\<^verbatim>\<open>encode_to_file\<close> of \<^verbatim>\<open>main.py\<close>; the result is the content written to the file.\<close>

definition encode_to_file :: "string \<Rightarrow> py_error + nat list" where
  "encode_to_file message =
     (case append_codes ValueError message [] of
        Inl e \<Rightarrow> Inl e
      | Inr bitstring \<Rightarrow>
          (case append_codes KeyError STOP_WORD bitstring of
             Inl e \<Rightarrow> Inl e
           | Inr bitstring' \<Rightarrow> bits_to_bytes bitstring'))"

text \<open>
  The loop \<^verbatim>\<open>for i in range(0, len(bitstring), 5)\<close> of \<^verbatim>\<open>decode_from_file\<close>, the same in
  every generation. \<open>slide\<close> is the update of \<^verbatim>\<open>stop_buffer\<close> (append, then keep the last
  \<^verbatim>\<open>len(STOP_WORD)\<close> characters), \<open>trim_stop\<close> is \<^verbatim>\<open>decoded[:-len(STOP_WORD)]\<close>. The
  result is \<open>None\<close> when the loop ends or breaks without a match.
\<close>

definition slide :: "string \<Rightarrow> char \<Rightarrow> string" where
  "slide stop_buffer char =
     (let sb = stop_buffer @ [char]
      in if length sb > length STOP_WORD then drop (length sb - length STOP_WORD) sb else sb)"

definition trim_stop :: "string \<Rightarrow> string" where
  "trim_stop decoded = take (length decoded - length STOP_WORD) decoded"

function scan_loop :: "string \<Rightarrow> nat \<Rightarrow> string \<Rightarrow> string \<Rightarrow> string option" where
  "scan_loop bitstring i decoded stop_buffer =
     (if i < length bitstring then
        (if length (take 5 (drop i bitstring)) < 5 then None
         else
           (case map_of REVERSE_TABLE (take 5 (drop i bitstring)) of
              None \<Rightarrow> scan_loop bitstring (i + 5) decoded stop_buffer
            | Some char \<Rightarrow>
                if slide stop_buffer char = STOP_WORD then Some (trim_stop (decoded @ [char]))
                else scan_loop bitstring (i + 5) (decoded @ [char]) (slide stop_buffer char)))
      else None)"
  by pat_completeness auto
termination
  by (relation "measure (\<lambda>(b, i, d, s). length b - i)") auto

declare scan_loop.simps [simp del]

datatype decode_outcome = Decoded string | StopWordNotFound

text \<open>\<^verbatim>\<open>decode_from_file\<close> of \<^verbatim>\<open>main.py\<close>, on the content of the file.\<close>

definition main_decode_from_file :: "nat list \<Rightarrow> decode_outcome" where
  "main_decode_from_file byte_data =
     (case scan_loop (bytes_to_bits byte_data) 0 [] [] of
        None \<Rightarrow> StopWordNotFound
      | Some message \<Rightarrow> Decoded message)"

subsection \<open>Character classes of Python's \<^verbatim>\<open>str\<close>, below code point 256\<close>

definition isspace :: "char \<Rightarrow> bool" where
  "isspace c =
     (let n = (of_char c :: nat)
      in (9 \<le> n \<and> n \<le> 13) \<or> (28 \<le> n \<and> n \<le> 32) \<or> n = 133 \<or> n = 160)"

definition isupper :: "char \<Rightarrow> bool" where
  "isupper c =
     (let n = (of_char c :: nat)
      in (65 \<le> n \<and> n \<le> 90) \<or> (192 \<le> n \<and> n \<le> 214) \<or> (216 \<le> n \<and> n \<le> 222))"

definition lower_char :: "char \<Rightarrow> bool" where
  "lower_char c =
     (let n = (of_char c :: nat)
      in (97 \<le> n \<and> n \<le> 122) \<or> n = 170 \<or> n = 181 \<or> n = 186 \<or>
         (223 \<le> n \<and> n \<le> 246) \<or> (248 \<le> n \<and> n \<le> 255))"

text \<open>
  \<^verbatim>\<open>s.islower()\<close>: some character is cased, and no cased character is uppercase.
\<close>

definition islower :: "string \<Rightarrow> bool" where
  "islower s = (list_ex lower_char s \<and> \<not> list_ex isupper s)"

definition newline :: char where
  "newline = CHR 0x0A"

text \<open>\<^verbatim>\<open>s.split()\<close>: the maximal runs of characters that are not whitespace.\<close>

fun split_words :: "string \<Rightarrow> string \<Rightarrow> string list" where
  "split_words [] word = (if word = [] then [] else [word])"
| "split_words (c # cs) word =
     (if isspace c then (if word = [] then split_words cs [] else word # split_words cs [])
      else split_words cs (word @ [c]))"

definition split :: "string \<Rightarrow> string list" where
  "split s = split_words s []"

text \<open>\<^verbatim>\<open>" ".join(words)\<close>.\<close>

fun join :: "string list \<Rightarrow> string" where
  "join [] = []"
| "join [w] = w"
| "join (w # ws) = w @ '' '' @ join ws"

text \<open>\<^verbatim>\<open>s.strip()\<close>, \<^verbatim>\<open>s.rstrip("\n")\<close> and \<^verbatim>\<open>s.replace(c, "")\<close> for one character.\<close>

definition strip :: "string \<Rightarrow> string" where
  "strip s = rev (dropWhile isspace (rev (dropWhile isspace s)))"

definition rstrip_newline :: "string \<Rightarrow> string" where
  "rstrip_newline s = rev (dropWhile (\<lambda>c. c = newline) (rev s))"

definition remove_char :: "char \<Rightarrow> string \<Rightarrow> string" where
  "remove_char c s = filter (\<lambda>x. x \<noteq> c) s"

subsection \<open>Abbreviations, validation and compression (1.5/1.53.py)\<close>

text \<open>
  \<^verbatim>\<open>WORD_SHORTCUTS\<close> is what \<^verbatim>\<open>load_shortcuts\<close> read from \<^verbatim>\<open>abv.txt\<close> when the module
  was loaded; the functions using the global take it as their first argument.
  \<^verbatim>\<open>d.get(word, word)\<close> is \<open>dict_get\<close>.
\<close>

definition dict_get :: "(string \<times> string) list \<Rightarrow> string \<Rightarrow> string" where
  "dict_get d word = (case map_of d word of None \<Rightarrow> word | Some w \<Rightarrow> w)"

definition REVERSE_SHORTCUTS :: "(string \<times> string) list \<Rightarrow> (string \<times> string) list" where
  "REVERSE_SHORTCUTS WORD_SHORTCUTS = reverse_dict WORD_SHORTCUTS"

definition apply_shortcuts_encode :: "(string \<times> string) list \<Rightarrow> string \<Rightarrow> string" where
  "apply_shortcuts_encode WORD_SHORTCUTS message =
     join (map (dict_get WORD_SHORTCUTS) (split message))"

definition apply_shortcuts_decode :: "(string \<times> string) list \<Rightarrow> string \<Rightarrow> string" where
  "apply_shortcuts_decode WORD_SHORTCUTS message =
     join (map (dict_get (REVERSE_SHORTCUTS WORD_SHORTCUTS)) (split message))"

text \<open>
  \<^verbatim>\<open>validate_message\<close>: the loop over the characters with its three variables; an error
  is the tuple \<^verbatim>\<open>(line, column, char, reason)\<close>.
\<close>

type_synonym diagnostic = "nat \<times> nat \<times> char \<times> string"

fun validate_loop :: "string \<Rightarrow> nat \<Rightarrow> nat \<Rightarrow> diagnostic list \<Rightarrow> diagnostic list" where
  "validate_loop [] line column errors = errors"
| "validate_loop (char # rest) line column errors =
     (if char = newline then validate_loop rest (line + 1) 1 errors
      else if isupper char then
        validate_loop rest line (column + 1)
          (errors @ [(line, column, char, ''Uppercase character not allowed'')])
      else if map_of BAUDOT_TABLE char = None then
        validate_loop rest line (column + 1)
          (errors @ [(line, column, char, ''Invalid character'')])
      else validate_loop rest line (column + 1) errors)"

definition validate_message :: "string \<Rightarrow> diagnostic list" where
  "validate_message message = validate_loop message 1 1 []"

text \<open>
  \<^verbatim>\<open>read_text_file\<close>, on the text of the file: a code point above 127 or of a Unicode
  category \<open>C\<close> (below 256: 0 to 31, 127 to 159 and 173) is reported with its position,
  and the file is refused when anything was reported. The reported name of the
  character is left out.
\<close>

definition unicode_error :: "char \<Rightarrow> bool" where
  "unicode_error c = (let n = (of_char c :: nat) in n > 127 \<or> n \<le> 31 \<or> n = 127)"

fun unicode_loop :: "string \<Rightarrow> nat \<Rightarrow> nat \<Rightarrow> (nat \<times> nat \<times> char) list \<Rightarrow> (nat \<times> nat \<times> char) list"
  where
  "unicode_loop [] line column unicode_errors = unicode_errors"
| "unicode_loop (char # rest) line column unicode_errors =
     (if char = newline then unicode_loop rest (line + 1) 1 unicode_errors
      else if unicode_error char then
        unicode_loop rest line (column + 1) (unicode_errors @ [(line, column, char)])
      else unicode_loop rest line (column + 1) unicode_errors)"

definition read_text_file :: "string \<Rightarrow> string option" where
  "read_text_file text = (if unicode_loop text 1 1 [] \<noteq> [] then None else Some text)"

definition build_encoded_bytes :: "string \<Rightarrow> py_error + nat list" where
  "build_encoded_bytes message =
     (case append_codes KeyError message [] of
        Inl e \<Rightarrow> Inl e
      | Inr bitstring \<Rightarrow>
          (case append_codes KeyError STOP_WORD bitstring of
             Inl e \<Rightarrow> Inl e
           | Inr bitstring' \<Rightarrow> bits_to_bytes bitstring'))"

text \<open>
  \<^verbatim>\<open>zlib\<close> is a library outside the repository: \<open>compress\<close> stands for \<^verbatim>\<open>zlib.compress\<close>
  and \<open>decompress\<close> for \<^verbatim>\<open>zlib.decompress\<close>, \<open>None\<close> when it raises. The three answers
  typed at the prompts of \<^verbatim>\<open>handle_compression\<close> are booleans: whether the answer was
  \<^verbatim>\<open>y\<close>. The result is the content written to the file.
\<close>

definition handle_compression ::
  "(nat list \<Rightarrow> nat list) \<Rightarrow> nat list \<Rightarrow> bool \<Rightarrow> bool \<Rightarrow> bool \<Rightarrow> nat list" where
  "handle_compression compress byte_data use_compression compare choice =
     (if \<not> use_compression then byte_data
      else if compare \<and> length (compress byte_data) > length byte_data then
        (if choice then compress byte_data else byte_data)
      else compress byte_data)"

datatype encode_outcome =
  FileRefused
  | ValidationErrors "diagnostic list"
  | Raised py_error
  | Saved "nat list"

definition encode_to_file_from_text ::
  "(string \<times> string) list \<Rightarrow> (nat list \<Rightarrow> nat list) \<Rightarrow> string \<Rightarrow> bool \<Rightarrow> bool \<Rightarrow> bool \<Rightarrow>
     encode_outcome" where
  "encode_to_file_from_text WORD_SHORTCUTS compress text use_compression compare choice =
     (case read_text_file text of
        None \<Rightarrow> FileRefused
      | Some message \<Rightarrow>
          (let message' = apply_shortcuts_encode WORD_SHORTCUTS (rstrip_newline message);
               errors = validate_message message'
           in if errors \<noteq> [] then ValidationErrors errors
              else
                (case build_encoded_bytes message' of
                   Inl e \<Rightarrow> Raised e
                 | Inr byte_data \<Rightarrow>
                     Saved (handle_compression compress byte_data use_compression compare choice))))"

text \<open>
  \<^verbatim>\<open>decode_from_file\<close> of \<^verbatim>\<open>1.53.py\<close>: the \<^verbatim>\<open>try\<close> replaces \<^verbatim>\<open>byte_data\<close> when
  \<^verbatim>\<open>zlib.decompress\<close> returns, and the bare \<^verbatim>\<open>except\<close> keeps it when it raises.
\<close>

definition decode_from_file ::
  "(string \<times> string) list \<Rightarrow> (nat list \<Rightarrow> nat list option) \<Rightarrow> nat list \<Rightarrow> decode_outcome" where
  "decode_from_file WORD_SHORTCUTS decompress byte_data =
     (let byte_data' = (case decompress byte_data of Some d \<Rightarrow> d | None \<Rightarrow> byte_data)
      in case scan_loop (bytes_to_bits byte_data') 0 [] [] of
           None \<Rightarrow> StopWordNotFound
         | Some decoded_message \<Rightarrow> Decoded (apply_shortcuts_decode WORD_SHORTCUTS decoded_message))"

subsection \<open>Loading the abbreviation dictionary (1.5/1.53.py)\<close>

text \<open>
  \<^verbatim>\<open>load_shortcuts\<close> reads \<^verbatim>\<open>abv.txt\<close> line by line. The model takes the lines of the file
  (\<open>None\<close> when the file does not exist) and returns the dictionary together with what
  was printed: one \<open>load_message\<close> for each \<^verbatim>\<open>print\<close> of the function, holding the line
  number the message shows.
\<close>

datatype load_message =
  FileNotFound
  | InvalidFormat nat string
  | OnlyLowercase nat
  | InvalidFullWord nat
  | InvalidShortcut nat
  | DuplicateFullWord nat
  | DuplicateShortcut nat

definition startswith_hash :: "string \<Rightarrow> bool" where
  "startswith_hash line = (case line of [] \<Rightarrow> False | c # _ \<Rightarrow> c = CHR ''#'')"

definition allowed_chars :: "char \<Rightarrow> bool" where
  "allowed_chars c = (map_of BAUDOT_TABLE c \<noteq> None)"

text \<open>The two sides of \<^verbatim>\<open>line.split("=", 1)\<close>, each stripped and with its blanks removed.\<close>

definition full_of :: "string \<Rightarrow> string" where
  "full_of line = remove_char CHR '' '' (strip (takeWhile (\<lambda>c. c \<noteq> CHR ''='') line))"

definition short_of :: "string \<Rightarrow> string" where
  "short_of line = remove_char CHR '' '' (strip (tl (dropWhile (\<lambda>c. c \<noteq> CHR ''='') line)))"

definition clean_line :: "string \<Rightarrow> string" where
  "clean_line line = remove_char (CHR 0x0D) (strip line)"

text \<open>The body of the loop, for one line and its number.\<close>

definition load_line ::
  "nat \<Rightarrow> string \<Rightarrow> (string \<times> string) list \<times> load_message list \<Rightarrow>
     (string \<times> string) list \<times> load_message list" where
  "load_line line_number raw st =
     (let shortcuts = fst st; printed = snd st; line = clean_line raw
      in if line = [] \<or> startswith_hash line then (shortcuts, printed)
         else if CHR ''='' \<notin> set line then
           (shortcuts, printed @ [InvalidFormat line_number line])
         else if \<not> islower (full_of line) \<or> \<not> islower (short_of line) then
           (shortcuts, printed @ [OnlyLowercase line_number])
         else if \<not> list_all allowed_chars (full_of line) then
           (shortcuts, printed @ [InvalidFullWord line_number])
         else if \<not> list_all allowed_chars (short_of line) then
           (shortcuts, printed @ [InvalidShortcut line_number])
         else if map_of shortcuts (full_of line) \<noteq> None then
           (shortcuts, printed @ [DuplicateFullWord line_number])
         else if short_of line \<in> set (map snd shortcuts) then
           (shortcuts, printed @ [DuplicateShortcut line_number])
         else (AList.update (full_of line) (short_of line) shortcuts, printed))"

fun load_loop ::
  "string list \<Rightarrow> nat \<Rightarrow> (string \<times> string) list \<times> load_message list \<Rightarrow>
     (string \<times> string) list \<times> load_message list" where
  "load_loop [] line_number st = st"
| "load_loop (line # rest) line_number st =
     load_loop rest (line_number + 1) (load_line line_number line st)"

definition load_shortcuts ::
  "string list option \<Rightarrow> (string \<times> string) list \<times> load_message list" where
  "load_shortcuts file =
     (case file of
        None \<Rightarrow> ([], [FileNotFound])
      | Some lines \<Rightarrow> load_loop lines 1 ([], []))"

section \<open>Notions used in the statements and proofs\<close>

text \<open>
  A byte that \<^verbatim>\<open>bits_to_bytes\<close> forms from eight binary digits, which are then its
  \<^verbatim>\<open>08b\<close> format.
\<close>

definition byte_of_bits :: "nat \<Rightarrow> bool" where
  "byte_of_bits v =
     (v < 256 \<and> length (format_08b v) = 8 \<and> set (format_08b v) \<subseteq> {CHR ''0'', CHR ''1''} \<and>
      int_base2 (format_08b v) = Inr v)"

text \<open>
  The position of the character at index \<open>i\<close> of a text, as the specification counts it:
  the line is one more than the number of newlines before it, the column one more than
  the number of characters between the last newline before it and itself.
\<close>

definition line_at :: "string \<Rightarrow> nat \<Rightarrow> nat" where
  "line_at text i = 1 + count_list (take i text) newline"

definition column_at :: "string \<Rightarrow> nat \<Rightarrow> nat" where
  "column_at text i = 1 + length (takeWhile (\<lambda>c. c \<noteq> newline) (rev (take i text)))"

text \<open>
  The symbol stream of a bit string: its aligned chunks of five bits, in order, a last
  shorter chunk left out, each chunk that is a code replaced by its character and the
  other chunks dropped.
\<close>

fun chunks5 :: "string \<Rightarrow> string list" where
  "chunks5 bs = (if length bs < 5 then [] else take 5 bs # chunks5 (drop 5 bs))"

declare chunks5.simps [simp del]

definition symbols :: "string \<Rightarrow> string" where
  "symbols bs = List.map_filter (map_of REVERSE_TABLE) (chunks5 bs)"

text \<open>The scanning loop read on the symbol stream, and the window it keeps.\<close>

fun find_stop :: "string \<Rightarrow> string \<Rightarrow> string \<Rightarrow> string option" where
  "find_stop [] decoded stop_buffer = None"
| "find_stop (c # cs) decoded stop_buffer =
     (if slide stop_buffer c = STOP_WORD then Some (trim_stop (decoded @ [c]))
      else find_stop cs (decoded @ [c]) (slide stop_buffer c))"

definition window :: "string \<Rightarrow> string" where
  "window decoded = drop (length decoded - length STOP_WORD) decoded"

text \<open>The bits of a text: the codes of its characters, one after the other.\<close>

definition code_of :: "char \<Rightarrow> string" where
  "code_of c = (case map_of BAUDOT_TABLE c of None \<Rightarrow> [] | Some code \<Rightarrow> code)"

definition codes :: "string \<Rightarrow> string" where
  "codes s = concat (map code_of s)"

text \<open>
  What \<^verbatim>\<open>zlib\<close> does at the byte strings of the examples below, as observed with the
  \<^verbatim>\<open>zlib\<close> module of CPython (zlib 1.2.13, default level). The three raw strings are
  the packed bytes of \<open>hello stop\<close>, of \<open>please dpo now\<close> and of
  \<open>eefypv2wbkbpgpoee32tdac\<close>, each followed by the stop word. \<^verbatim>\<open>zlib.decompress\<close>
  raises on the first two (\<open>incorrect header check\<close>) and returns six bytes on the third,
  whose first fourteen bytes are a complete zlib stream; it returns each raw string from
  its compressed form. The tables hold nothing else: at any other argument they return
  a filler (the last branch) that no statement below reads.
\<close>

definition zlib_compress_observed :: "nat list \<Rightarrow> nat list" where
  "zlib_compress_observed byte_data =
     (if byte_data = [160, 101, 44, 16, 176, 197, 139, 12, 88] then
        [120, 156, 91, 144, 170, 35, 176, 225, 104, 55, 79, 4, 0, 18, 250, 3, 166]
      else if byte_data = [180, 130, 50, 132, 137, 182, 8, 204, 76, 176, 197, 128] then
        [120, 156, 219, 210, 100, 212, 210, 185, 141, 227, 140, 207, 134, 163, 13, 0, 39, 98, 6, 65]
      else if byte_data =
          [8, 91, 91, 123, 115, 203, 243, 109, 91, 1, 15, 247, 4, 141, 197, 134, 44] then
        [120, 156, 227, 136, 142, 174, 46, 62, 253, 57, 55, 154, 145, 255, 59, 75, 239, 209, 54,
         29, 0, 63, 163, 7, 66]
      else [])"

definition zlib_decompress_observed :: "nat list \<Rightarrow> nat list option" where
  "zlib_decompress_observed byte_data =
     (if byte_data = [160, 101, 44, 16, 176, 197, 139, 12, 88] then None
      else if byte_data = [180, 130, 50, 132, 137, 182, 8, 204, 76, 176, 197, 128] then None
      else if byte_data =
          [120, 156, 91, 144, 170, 35, 176, 225, 104, 55, 79, 4, 0, 18, 250, 3, 166] then
        Some [160, 101, 44, 16, 176, 197, 139, 12, 88]
      else if byte_data =
          [120, 156, 219, 210, 100, 212, 210, 185, 141, 227, 140, 207, 134, 163, 13, 0, 39, 98, 6, 65]
      then Some [180, 130, 50, 132, 137, 182, 8, 204, 76, 176, 197, 128]
      else if byte_data =
          [120, 156, 227, 136, 142, 174, 46, 62, 253, 57, 55, 154, 145, 255, 59, 75, 239, 209, 54,
           29, 0, 63, 163, 7, 66]
      then Some [8, 91, 91, 123, 115, 203, 243, 109, 91, 1, 15, 247, 4, 141, 197, 134, 44]
      else if byte_data =
          [8, 91, 91, 123, 115, 203, 243, 109, 91, 1, 15, 247, 4, 141, 197, 134, 44]
      then Some [173, 217, 180, 231, 182, 181]
      else None)"

text \<open>
  The words of the claim about \<^verbatim>\<open>load_shortcuts\<close>: a line is blank when, cleaned, it is
  empty or starts with \<open>#\<close>; it is malformed for a dictionary when it does not hold
  exactly one \<open>=\<close>, or a side is not lowercase, or a side holds a character outside the
  table, or its full word is a key of the dictionary, or its shortcut is a value of it.
  \<open>message_line\<close> is the line number a printed message shows. A legal word is
  lowercase, made of table characters, and holds no blank.
\<close>

definition blank :: "string \<Rightarrow> bool" where
  "blank raw = (clean_line raw = [] \<or> startswith_hash (clean_line raw))"

definition malformed :: "(string \<times> string) list \<Rightarrow> string \<Rightarrow> bool" where
  "malformed shortcuts raw =
     (count_list (clean_line raw) CHR ''='' \<noteq> 1 \<or>
      \<not> islower (full_of (clean_line raw)) \<or> \<not> islower (short_of (clean_line raw)) \<or>
      \<not> list_all allowed_chars (full_of (clean_line raw)) \<or>
      \<not> list_all allowed_chars (short_of (clean_line raw)) \<or>
      full_of (clean_line raw) \<in> fst ` set shortcuts \<or>
      short_of (clean_line raw) \<in> snd ` set shortcuts)"

fun message_line :: "load_message \<Rightarrow> nat option" where
  "message_line FileNotFound = None"
| "message_line (InvalidFormat n line) = Some n"
| "message_line (OnlyLowercase n) = Some n"
| "message_line (InvalidFullWord n) = Some n"
| "message_line (InvalidShortcut n) = Some n"
| "message_line (DuplicateFullWord n) = Some n"
| "message_line (DuplicateShortcut n) = Some n"

definition legal_word :: "string \<Rightarrow> bool" where
  "legal_word w = (list_all allowed_chars w \<and> islower w \<and> CHR '' '' \<notin> set w)"

definition well_formed :: "(string \<times> string) list \<Rightarrow> bool" where
  "well_formed shortcuts =
     (distinct (map fst shortcuts) \<and> distinct (map snd shortcuts) \<and>
      list_all (\<lambda>(full, short). legal_word full \<and> legal_word short) shortcuts)"

section \<open>Properties\<close>

subsection \<open>The symbol table\<close>

lemma update_new: "k \<notin> fst ` set al \<Longrightarrow> AList.update k v al = al @ [(k, v)]"
  by (induction al) auto

lemma fold_update_distinct:
  "distinct (map snd d) \<Longrightarrow> snd ` set d \<inter> fst ` set acc = {} \<Longrightarrow>
   fold (\<lambda>(k, v) r. AList.update v k r) d acc = acc @ map (\<lambda>(k, v). (v, k)) d"
proof (induction d arbitrary: acc)
  case Nil
  then show ?case by simp
next
  case (Cons p d)
  obtain k v where p: "p = (k, v)" by (cases p)
  from Cons.prems have new: "v \<notin> fst ` set acc" and dist: "distinct (map snd d)"
    and notin: "v \<notin> snd ` set d" and disj: "snd ` set d \<inter> fst ` set acc = {}"
    by (auto simp: p)
  have "snd ` set d \<inter> fst ` set (acc @ [(v, k)]) = {}"
    using notin disj by auto
  from Cons.IH [OF dist this] show ?case
    by (simp add: p update_new [OF new])
qed

lemma reverse_dict_distinct:
  "distinct (map snd d) \<Longrightarrow> reverse_dict d = map (\<lambda>(k, v). (v, k)) d"
  unfolding reverse_dict_def using fold_update_distinct [of d "[]"] by simp

lemma map_of_swap:
  assumes "distinct (map fst d)" and "distinct (map snd d)"
  shows "(map_of (map (\<lambda>(k, v). (v, k)) d) v = Some k) = (map_of d k = Some v)"
proof -
  have eq: "map fst (map (\<lambda>(k, v). (v, k)) d) = map snd d"
    by (induction d) auto
  have "(map_of (map (\<lambda>(k, v). (v, k)) d) v = Some k) = ((v, k) \<in> set (map (\<lambda>(k, v). (v, k)) d))"
    by (rule map_of_eq_Some_iff) (subst eq, rule assms(2))
  also have "\<dots> = ((k, v) \<in> set d)"
    by auto
  also have "\<dots> = (map_of d k = Some v)"
    using assms(1) by simp
  finally show ?thesis .
qed

lemma table_keys: "distinct (map fst BAUDOT_TABLE)"
  by (simp add: BAUDOT_TABLE_def)

lemma table_codes: "distinct (map snd BAUDOT_TABLE)"
  by (simp add: BAUDOT_TABLE_def)

lemma table_length: "length BAUDOT_TABLE = 30"
  by (simp add: BAUDOT_TABLE_def)

lemma table_shape:
  "list_all (\<lambda>(c, code). length code = 5 \<and> set code \<subseteq> {CHR ''0'', CHR ''1''}) BAUDOT_TABLE"
  by (simp add: BAUDOT_TABLE_def)

lemma reverse_table_lookup:
  "(map_of REVERSE_TABLE code = Some c) = (map_of BAUDOT_TABLE c = Some code)"
  unfolding REVERSE_TABLE_def reverse_dict_distinct [OF table_codes]
  by (rule map_of_swap [OF table_keys table_codes])

text \<open>
  Claim C5, as stated: the table maps exactly 27 characters. It does not: the 26
  letters, the space and the three digits are 30 keys.
\<close>

theorem symbol_table_27_counterexample:
  "card (fst ` set BAUDOT_TABLE) \<noteq> 27"
proof -
  have "card (set (map fst BAUDOT_TABLE)) = length (map fst BAUDOT_TABLE)"
    by (rule distinct_card [OF table_keys])
  then show ?thesis
    by (simp add: table_length)
qed

text \<open>
  Claim C5, amended: the symbol table is a bijection over exactly 30 entries. It has 30
  keys and 30 codes, no key and no code occurs twice, every code is a string of five
  binary digits, and \<^verbatim>\<open>REVERSE_TABLE\<close> is the exact inverse of \<^verbatim>\<open>BAUDOT_TABLE\<close>.
\<close>

theorem symbol_table_bijection:
  "card (fst ` set BAUDOT_TABLE) = 30 \<and>
   card (snd ` set BAUDOT_TABLE) = 30 \<and>
   distinct (map fst BAUDOT_TABLE) \<and>
   distinct (map snd BAUDOT_TABLE) \<and>
   list_all (\<lambda>(c, code). length code = 5 \<and> set code \<subseteq> {CHR ''0'', CHR ''1''}) BAUDOT_TABLE \<and>
   (\<forall>c code. (map_of REVERSE_TABLE code = Some c) = (map_of BAUDOT_TABLE c = Some code))"
proof -
  have "card (set (map fst BAUDOT_TABLE)) = length (map fst BAUDOT_TABLE)"
    by (rule distinct_card [OF table_keys])
  moreover have "card (set (map snd BAUDOT_TABLE)) = length (map snd BAUDOT_TABLE)"
    by (rule distinct_card [OF table_codes])
  ultimately show ?thesis
    using table_keys table_codes table_shape reverse_table_lookup
    by (simp add: table_length)
qed

subsection \<open>Packing and unpacking\<close>

lemma pad_loop_eq: "pad_loop b = b @ replicate ((8 - length b mod 8) mod 8) CHR ''0''"
proof (induction b rule: pad_loop.induct)
  case (1 b)
  show ?case
  proof (cases "length b mod 8 = 0")
    case True
    then show ?thesis by (subst pad_loop.simps) simp
  next
    case False
    have ar: "(8 - length b mod 8) mod 8 = Suc ((8 - Suc (length b) mod 8) mod 8)"
      using False by (simp add: mod_Suc) arith
    have "pad_loop b = pad_loop (b @ ''0'')"
      using False by (subst pad_loop.simps) simp
    also have "\<dots> = (b @ ''0'') @ replicate ((8 - length (b @ ''0'') mod 8) mod 8) CHR ''0''"
      using 1 False by simp
    also have "\<dots> = b @ replicate ((8 - length b mod 8) mod 8) CHR ''0''"
      by (simp add: ar)
    finally show ?thesis .
  qed
qed

lemma int2_digits_snoc:
  "int2_digits acc (cs @ [c]) =
     (case int2_digits acc cs of
        None \<Rightarrow> None
      | Some m \<Rightarrow> (case bit_value c of None \<Rightarrow> None | Some d \<Rightarrow> Some (2 * m + d)))"
  by (induction cs arbitrary: acc) (auto split: option.splits)

lemma bin_digits_double:
  "0 < v \<Longrightarrow> d < 2 \<Longrightarrow> bin_digits (2 * v + d) = bin_digits v @ [digit_char d]"
  by (subst bin_digits.simps) simp

lemma bin_digits_small: "d < 2 \<Longrightarrow> bin_digits d = [digit_char d]"
  by (subst bin_digits.simps) simp

lemma int2_digits_bits:
  "set cs \<subseteq> {CHR ''0'', CHR ''1''} \<Longrightarrow>
   \<exists>v. int2_digits 0 cs = Some v \<and> v < 2 ^ length cs \<and>
       (cs \<noteq> [] \<longrightarrow>
          replicate (length cs - length (bin_digits v)) CHR ''0'' @ bin_digits v = cs)"
proof (induction cs rule: rev_induct)
  case Nil
  then show ?case by simp
next
  case (snoc c cs)
  then obtain v where v: "int2_digits 0 cs = Some v" "v < 2 ^ length cs"
    and pad: "cs \<noteq> [] \<Longrightarrow> replicate (length cs - length (bin_digits v)) CHR ''0'' @ bin_digits v = cs"
    by auto
  from snoc.prems obtain d where d: "bit_value c = Some d" "d < 2" "digit_char d = c"
    by (auto simp: bit_value_def digit_char_def)
  have val: "int2_digits 0 (cs @ [c]) = Some (2 * v + d)"
    by (simp add: int2_digits_snoc v d)
  have bound: "2 * v + d < 2 ^ length (cs @ [c])"
    using v(2) d(2) by simp
  have "replicate (length (cs @ [c]) - length (bin_digits (2 * v + d))) CHR ''0'' @ bin_digits (2 * v + d)
        = cs @ [c]"
  proof (cases "v = 0")
    case True
    have zeros: "cs = replicate (length cs) CHR ''0''"
    proof (cases "cs = []")
      case True
      then show ?thesis by simp
    next
      case False
      from pad [OF False] have "replicate (length cs - 1) CHR ''0'' @ ''0'' = cs"
        using True by (simp add: bin_digits_small digit_char_def)
      then have "replicate (Suc (length cs - 1)) CHR ''0'' = cs"
        by (simp add: replicate_append_same)
      moreover have "Suc (length cs - 1) = length cs"
        using False by (cases cs) auto
      ultimately show ?thesis by metis
    qed
    have "bin_digits (2 * v + d) = [c]"
      using True d by (simp add: bin_digits_small)
    then show ?thesis
      using zeros by simp
  next
    case False
    then have ne: "cs \<noteq> []"
      using v(1) by (cases cs) auto
    have "bin_digits (2 * v + d) = bin_digits v @ [c]"
      using False d by (simp add: bin_digits_double)
    then show ?thesis
      using pad [OF ne] by simp
  qed
  with val bound show ?case by blast
qed

lemma chunk_roundtrip:
  assumes "set cs \<subseteq> {CHR ''0'', CHR ''1''}" and "length cs = 8"
  shows "\<exists>v. int_base2 cs = Inr v \<and> v < 256 \<and> format_08b v = cs"
proof -
  from int2_digits_bits [OF assms(1)] assms(2)
  obtain v where "int2_digits 0 cs = Some v" "v < 2 ^ 8"
    "replicate (8 - length (bin_digits v)) CHR ''0'' @ bin_digits v = cs"
    by auto
  then show ?thesis
    using assms(2) by (auto simp: int_base2_def format_08b_def Let_def)
qed

lemma bytes_loop_roundtrip:
  "set bs \<subseteq> {CHR ''0'', CHR ''1''} \<Longrightarrow> 8 dvd length bs \<Longrightarrow> 8 dvd i \<Longrightarrow>
   \<exists>out. bytes_loop bs i acc = Inr (acc @ out) \<and> bytes_to_bits out = drop i bs \<and>
         list_all byte_of_bits out"
proof (induction bs i acc rule: bytes_loop.induct)
  case (1 bs i acc)
  show ?case
  proof (cases "i < length bs")
    case False
    then show ?thesis
      by (subst bytes_loop.simps) (simp add: bytes_to_bits_def)
  next
    case True
    from True "1.prems"(2,3) have le: "i + 8 \<le> length bs"
      by (auto elim!: dvdE)
    have cset: "set (take 8 (drop i bs)) \<subseteq> {CHR ''0'', CHR ''1''}"
      using "1.prems"(1) by (meson in_set_dropD in_set_takeD subsetD subsetI)
    have clen: "length (take 8 (drop i bs)) = 8"
      using le by simp
    from chunk_roundtrip [OF cset clen]
    obtain v where v: "int_base2 (take 8 (drop i bs)) = Inr v" "v < 256"
      "format_08b v = take 8 (drop i bs)"
      by blast
    have "8 dvd i + 8"
      using "1.prems"(3) by simp
    from "1.IH" [OF True v(1) v(2) "1.prems"(1,2) this]
    obtain out where out: "bytes_loop bs (i + 8) (acc @ [v]) = Inr ((acc @ [v]) @ out)"
      "bytes_to_bits out = drop (i + 8) bs" "list_all byte_of_bits out"
      by blast
    have "bytes_loop bs i acc = Inr (acc @ (v # out))"
      using True v out(1) by (subst bytes_loop.simps) simp
    moreover have "bytes_to_bits (v # out) = drop i bs"
    proof -
      have "bytes_to_bits (v # out) = take 8 (drop i bs) @ drop 8 (drop i bs)"
        using v(3) out(2) by (simp add: bytes_to_bits_def add.commute)
      then show ?thesis by (simp only: append_take_drop_id)
    qed
    moreover have "byte_of_bits v"
      unfolding byte_of_bits_def using v cset clen by simp
    ultimately show ?thesis
      using out(3) by auto
  qed
qed

lemma pad_aux: "m < 8 \<Longrightarrow> (m + (8 - m) mod 8) mod 8 = (0::nat)"
proof (cases "m = 0")
  case True
  then show ?thesis by simp
next
  case False
  assume "m < 8"
  with False have "(8 - m) mod 8 = 8 - m" by (intro mod_less) arith
  with \<open>m < 8\<close> show ?thesis by simp
qed

lemma pad_length: "8 dvd length (b @ replicate ((8 - length b mod 8) mod 8) c)"
proof -
  have "(length b + (8 - length b mod 8) mod 8) mod 8
        = (length b mod 8 + (8 - length b mod 8) mod 8) mod 8"
    by (rule mod_add_left_eq [symmetric])
  also have "\<dots> = 0"
    by (rule pad_aux) simp
  finally show ?thesis
    by (simp only: dvd_eq_mod_eq_0 length_append length_replicate)
qed

lemma unpack_pack_bits:
  assumes "set b \<subseteq> {CHR ''0'', CHR ''1''}"
  shows "\<exists>bytes. bits_to_bytes b = Inr bytes \<and>
           bytes_to_bits bytes = b @ replicate ((8 - length b mod 8) mod 8) CHR ''0'' \<and>
           list_all byte_of_bits bytes"
proof -
  let ?p = "b @ replicate ((8 - length b mod 8) mod 8) CHR ''0''"
  have "set ?p \<subseteq> {CHR ''0'', CHR ''1''}"
    using assms by auto
  from bytes_loop_roundtrip [OF this pad_length, of 0 "[]"]
  show ?thesis
    by (simp add: bits_to_bytes_def pad_loop_eq)
qed

lemma int2_digits_bit:
  "set cs \<subseteq> {CHR ''0'', CHR ''1''} \<Longrightarrow> int2_digits 0 cs = Some v \<Longrightarrow> j < length cs \<Longrightarrow>
   bit v (length cs - Suc j) = (cs ! j = CHR ''1'')"
proof (induction cs arbitrary: v j rule: rev_induct)
  case Nil
  then show ?case by simp
next
  case (snoc c cs)
  from snoc.prems(2) obtain m d where m: "int2_digits 0 cs = Some m"
    and d: "bit_value c = Some d" and v: "v = 2 * m + d"
    by (auto simp: int2_digits_snoc split: option.splits)
  from d have d2: "d < 2" and dc: "(d = 1) = (c = CHR ''1'')"
    by (auto simp: bit_value_def split: if_splits)
  show ?case
  proof (cases "j < length cs")
    case True
    then have idx: "length (cs @ [c]) - Suc j = Suc (length cs - Suc j)"
      by simp
    have "bit v (Suc (length cs - Suc j)) = bit m (length cs - Suc j)"
      using d2 by (simp add: bit_Suc v)
    also have "\<dots> = (cs ! j = CHR ''1'')"
      using snoc.IH [OF _ m True] snoc.prems(1) by simp
    finally show ?thesis
      using True by (simp only: idx nth_append if_True)
  next
    case False
    with snoc.prems(3) have j: "j = length cs" by simp
    from d2 have "d = 0 \<or> d = 1"
      by arith
    then have "bit v 0 = (d = 1)"
      by (auto simp: bit_0 v)
    then show ?thesis
      using dc by (simp add: j)
  qed
qed

lemma byte_of_bits_msb:
  assumes "byte_of_bits v" and "j < 8"
  shows "bit v (7 - j) = (format_08b v ! j = CHR ''1'')"
proof -
  from assms(1) have cs: "set (format_08b v) \<subseteq> {CHR ''0'', CHR ''1''}"
    "length (format_08b v) = 8" "int_base2 (format_08b v) = Inr v"
    unfolding byte_of_bits_def by simp_all
  from cs(2,3) have "int2_digits 0 (format_08b v) = Some v"
    by (auto simp: int_base2_def split: option.splits if_splits)
  from int2_digits_bit [OF cs(1) this, of j] assms(2) cs(2) show ?thesis
    by simp
qed

lemma concat_chunk:
  "list_all (\<lambda>x. length (f x) = 8) xs \<Longrightarrow> i < length xs \<Longrightarrow> j < 8 \<Longrightarrow>
   concat (map f xs) ! (8 * i + j) = f (xs ! i) ! j"
proof (induction xs arbitrary: i)
  case Nil
  then show ?case by simp
next
  case (Cons x xs)
  show ?case
  proof (cases i)
    case 0
    with Cons.prems show ?thesis by (simp add: nth_append)
  next
    case (Suc k)
    with Cons.prems have "concat (map f xs) ! (8 * k + j) = f (xs ! k) ! j"
      by (intro Cons.IH) simp_all
    with Cons.prems Suc show ?thesis by (simp add: nth_append)
  qed
qed

lemma byte_of_bits_length: "byte_of_bits v \<Longrightarrow> length (format_08b v) = 8"
  unfolding byte_of_bits_def by simp

text \<open>
  Claim C9: for every bit string \<open>b\<close> over \<open>0\<close> and \<open>1\<close>, \<^verbatim>\<open>bits_to_bytes\<close> returns
  bytes, and \<^verbatim>\<open>bytes_to_bits\<close> of them is \<open>b\<close> followed by \<open>k\<close> zero bits, where \<open>k\<close> is
  between 0 and 7 and brings the length to a multiple of 8 (so it is the least such
  number). Each byte is below 256 and its bit of weight \<open>2 ^ (7 - j)\<close> is the \<open>j\<close>-th
  character of its group of eight: the most significant bit comes first.
\<close>

theorem unpack_pack:
  assumes "set b \<subseteq> {CHR ''0'', CHR ''1''}"
  shows "\<exists>bytes k. bits_to_bytes b = Inr bytes \<and>
           bytes_to_bits bytes = b @ replicate k CHR ''0'' \<and>
           k < 8 \<and> 8 dvd length b + k \<and>
           (\<forall>i j. i < length bytes \<and> j < 8 \<longrightarrow>
              bytes ! i < 256 \<and>
              bit (bytes ! i) (7 - j) = ((b @ replicate k CHR ''0'') ! (8 * i + j) = CHR ''1''))"
proof -
  let ?k = "(8 - length b mod 8) mod 8"
  from unpack_pack_bits [OF assms] obtain bytes where
    bytes: "bits_to_bytes b = Inr bytes" "bytes_to_bits bytes = b @ replicate ?k CHR ''0''"
    "list_all byte_of_bits bytes"
    by blast
  have len: "list_all (\<lambda>v. length (format_08b v) = 8) bytes"
    using bytes(3) by (simp add: list_all_iff byte_of_bits_length)
  have msb: "bytes ! i < 256 \<and>
       bit (bytes ! i) (7 - j) = ((b @ replicate ?k CHR ''0'') ! (8 * i + j) = CHR ''1'')"
    if "i < length bytes" "j < 8" for i j
  proof -
    from bytes(3) that(1) have bi: "byte_of_bits (bytes ! i)"
      by (simp add: list_all_length)
    have "(b @ replicate ?k CHR ''0'') ! (8 * i + j) = format_08b (bytes ! i) ! j"
      using concat_chunk [OF len that] bytes(2) by (simp add: bytes_to_bits_def)
    with byte_of_bits_msb [OF bi that(2)] bi show ?thesis
      by (simp add: byte_of_bits_def)
  qed
  have "?k < 8" by simp
  moreover have "8 dvd length b + ?k"
    using pad_length [of b "CHR ''0''"] by simp
  ultimately show ?thesis
    using bytes(1,2) msb by blast
qed

text \<open>Claim C9 at the 19 bits \<open>0010110000110001011\<close>: three bytes, five padding bits.\<close>

theorem unpack_pack_witness:
  "set ''0010110000110001011'' \<subseteq> {CHR ''0'', CHR ''1''} \<and>
   bits_to_bytes ''0010110000110001011'' = Inr [44, 49, 96] \<and>
   bytes_to_bits [44, 49, 96] = ''0010110000110001011'' @ ''00000''"
proof -
  have h: "set ''0010110000110001011'' \<subseteq> {CHR ''0'', CHR ''1''}"
    by simp
  from unpack_pack [OF h] obtain bytes k where
    r: "bits_to_bytes ''0010110000110001011'' = Inr bytes"
       "bytes_to_bits bytes = ''0010110000110001011'' @ replicate k CHR ''0''"
       "k < 8" "8 dvd length ''0010110000110001011'' + k"
    by blast
  have "k = 5"
    using r(3,4) by (simp add: dvd_def) arith
  moreover have "bits_to_bytes ''0010110000110001011'' = Inr [44, 49, 96]"
    by code_simp
  ultimately show ?thesis
    using h r(1,2) by (simp add: numeral_eq_Suc)
qed

subsection \<open>The validator\<close>

lemma isupper_newline: "\<not> isupper newline"
  by (simp add: isupper_def newline_def)

lemma validate_loop_keeps: "set errors \<subseteq> set (validate_loop xs line column errors)"
  by (induction xs arbitrary: line column errors) (auto simp: subset_iff)

lemma validate_loop_no_newline:
  "e \<in> set (validate_loop xs line column errors) \<Longrightarrow> fst (snd (snd e)) = newline \<Longrightarrow>
   e \<in> set errors"
proof (induction xs arbitrary: line column errors)
  case Nil
  then show ?case by simp
next
  case (Cons x xs)
  show ?case
  proof (cases "x = newline")
    case True
    with Cons.prems Cons.IH show ?thesis by simp
  next
    case False
    define new where "new =
      (if isupper x then [(line, column, x, ''Uppercase character not allowed'')]
       else if map_of BAUDOT_TABLE x = None then [(line, column, x, ''Invalid character'')]
       else [])"
    from Cons.prems(1) False have "e \<in> set (validate_loop xs line (column + 1) (errors @ new))"
      by (auto simp: new_def split: if_splits)
    from Cons.IH [OF this Cons.prems(2)] have "e \<in> set errors \<or> e \<in> set new"
      by simp
    with Cons.prems(2) False show ?thesis by (auto simp: new_def split: if_splits)
  qed
qed

lemma validate_loop_upper:
  "i < length xs \<Longrightarrow> isupper (xs ! i) \<Longrightarrow>
   (line_at (pre @ xs) (length pre + i), column_at (pre @ xs) (length pre + i), xs ! i,
      ''Uppercase character not allowed'')
    \<in> set (validate_loop xs (1 + count_list pre newline)
          (1 + length (takeWhile (\<lambda>c. c \<noteq> newline) (rev pre))) errors)"
proof (induction xs arbitrary: pre i errors)
  case Nil
  then show ?case by simp
next
  case (Cons x xs)
  let ?line = "1 + count_list pre newline"
  let ?column = "1 + length (takeWhile (\<lambda>c. c \<noteq> newline) (rev pre))"
  show ?case
  proof (cases i)
    case 0
    with Cons.prems have up: "isupper x" by simp
    then have nl: "x \<noteq> newline" using isupper_newline by auto
    have here: "line_at (pre @ x # xs) (length pre) = ?line"
      "column_at (pre @ x # xs) (length pre) = ?column"
      by (simp_all add: line_at_def column_at_def)
    have "(?line, ?column, x, ''Uppercase character not allowed'')
          \<in> set (validate_loop xs ?line (?column + 1)
                (errors @ [(?line, ?column, x, ''Uppercase character not allowed'')]))"
      using validate_loop_keeps by (rule subsetD) simp
    then show ?thesis
      using 0 up nl here by simp
  next
    case (Suc k)
    with Cons.prems have k: "k < length xs" "isupper (xs ! k)" by simp_all
    define new where "new =
      (if x = newline then []
       else if isupper x then [(?line, ?column, x, ''Uppercase character not allowed'')]
       else if map_of BAUDOT_TABLE x = None then [(?line, ?column, x, ''Invalid character'')]
       else [])"
    have step: "validate_loop (x # xs) ?line ?column errors
                = validate_loop xs (1 + count_list (pre @ [x]) newline)
                    (1 + length (takeWhile (\<lambda>c. c \<noteq> newline) (rev (pre @ [x]))))
                    (errors @ new)"
      by (simp add: new_def)
    from Cons.IH [OF k, of "pre @ [x]" "errors @ new"] show ?thesis
      unfolding step using Suc by simp
  qed
qed

text \<open>
  Claim C6: every uppercase character of the text is reported by \<^verbatim>\<open>validate_message\<close> as
  \<open>Uppercase character not allowed\<close> at its own 1-based line and column, where a newline
  starts a new line at column 1; so a text with an uppercase character gets a list that
  is not empty; and no record reports a newline.
\<close>

theorem validator_completeness:
  "(\<forall>i. i < length message \<and> isupper (message ! i) \<longrightarrow>
        (line_at message i, column_at message i, message ! i, ''Uppercase character not allowed'')
          \<in> set (validate_message message)) \<and>
   ((\<exists>i. i < length message \<and> isupper (message ! i)) \<longrightarrow> validate_message message \<noteq> []) \<and>
   (\<forall>e. e \<in> set (validate_message message) \<longrightarrow> fst (snd (snd e)) \<noteq> newline)"
proof -
  have up: "(line_at message i, column_at message i, message ! i, ''Uppercase character not allowed'')
          \<in> set (validate_message message)" if "i < length message" "isupper (message ! i)" for i
    using validate_loop_upper [OF that, of "[]" "[]"] by (simp add: validate_message_def)
  have "validate_message message \<noteq> []" if "i < length message" "isupper (message ! i)" for i
    using up [OF that] by auto
  moreover have "fst (snd (snd e)) \<noteq> newline" if "e \<in> set (validate_message message)" for e
    using validate_loop_no_newline [of e message 1 1 "[]"] that
    by (auto simp: validate_message_def)
  ultimately show ?thesis
    using up by blast
qed

text \<open>
  Claim C6 on a text of two lines: \<open>B\<close> is reported at line 1, column 2 and \<open>D\<close> at line
  2, column 3.
\<close>

theorem validator_completeness_witness:
  "(line_at (''aB'' @ [newline] @ '' cD'') 1, column_at (''aB'' @ [newline] @ '' cD'') 1) = (1, 2) \<and>
   (line_at (''aB'' @ [newline] @ '' cD'') 5, column_at (''aB'' @ [newline] @ '' cD'') 5) = (2, 3) \<and>
   (1, 2, CHR ''B'', ''Uppercase character not allowed'')
      \<in> set (validate_message (''aB'' @ [newline] @ '' cD'')) \<and>
   (2, 3, CHR ''D'', ''Uppercase character not allowed'')
      \<in> set (validate_message (''aB'' @ [newline] @ '' cD'')) \<and>
   validate_message (''aB'' @ [newline] @ '' cD'') \<noteq> []"
proof -
  let ?t = "''aB'' @ [newline] @ '' cD''"
  have p1: "line_at ?t 1 = 1" "column_at ?t 1 = 2" "?t ! 1 = CHR ''B''"
    by code_simp+
  have p5: "line_at ?t 5 = 2" "column_at ?t 5 = 3" "?t ! 5 = CHR ''D''"
    by code_simp+
  have u1: "1 < length ?t \<and> isupper (?t ! 1)"
    by code_simp
  have u5: "5 < length ?t \<and> isupper (?t ! 5)"
    by code_simp
  have all: "\<forall>i. i < length ?t \<and> isupper (?t ! i) \<longrightarrow>
        (line_at ?t i, column_at ?t i, ?t ! i, ''Uppercase character not allowed'')
          \<in> set (validate_message ?t)"
    and ne: "(\<exists>i. i < length ?t \<and> isupper (?t ! i)) \<longrightarrow> validate_message ?t \<noteq> []"
    using validator_completeness [of ?t] by blast+
  from all u1 have "(line_at ?t 1, column_at ?t 1, ?t ! 1, ''Uppercase character not allowed'')
          \<in> set (validate_message ?t)"
    by blast
  then have r1: "(1, 2, CHR ''B'', ''Uppercase character not allowed'') \<in> set (validate_message ?t)"
    by (simp only: p1)
  from all u5 have "(line_at ?t 5, column_at ?t 5, ?t ! 5, ''Uppercase character not allowed'')
          \<in> set (validate_message ?t)"
    by blast
  then have r5: "(2, 3, CHR ''D'', ''Uppercase character not allowed'') \<in> set (validate_message ?t)"
    by (simp only: p5)
  from ne u1 have "validate_message ?t \<noteq> []"
    by blast
  with r1 r5 p1 p5 show ?thesis
    by (simp only: simp_thms)
qed

subsection \<open>The stop-word scan\<close>

lemma chunks5_short: "length bs < 5 \<Longrightarrow> chunks5 bs = []"
  by (subst chunks5.simps) simp

lemma chunks5_full: "\<not> length bs < 5 \<Longrightarrow> chunks5 bs = take 5 bs # chunks5 (drop 5 bs)"
  by (subst chunks5.simps) simp

lemma symbols_short: "length bs < 5 \<Longrightarrow> symbols bs = []"
  by (simp add: symbols_def chunks5_short map_filter_simps)

lemma symbols_full:
  "\<not> length bs < 5 \<Longrightarrow>
   symbols bs =
     (case map_of REVERSE_TABLE (take 5 bs) of
        None \<Rightarrow> symbols (drop 5 bs)
      | Some c \<Rightarrow> c # symbols (drop 5 bs))"
  by (simp add: symbols_def chunks5_full map_filter_simps split: option.splits)

lemma scan_loop_symbols:
  "scan_loop bitstring i decoded stop_buffer =
   find_stop (symbols (drop i bitstring)) decoded stop_buffer"
proof (induction bitstring i decoded stop_buffer rule: scan_loop.induct)
  case (1 bitstring i decoded stop_buffer)
  show ?case
  proof (cases "i < length bitstring")
    case False
    then show ?thesis
      by (subst scan_loop.simps) (simp add: symbols_short)
  next
    case True
    show ?thesis
    proof (cases "length bitstring - i < 5")
      case short: True
      then have "symbols (drop i bitstring) = []"
        by (intro symbols_short) simp
      then show ?thesis
        using True short by (subst scan_loop.simps) simp
    next
      case long: False
      then have full: "\<not> length (take 5 (drop i bitstring)) < 5"
        by simp
      from long have "\<not> length (drop i bitstring) < 5"
        by simp
      from symbols_full [OF this]
      have sym: "symbols (drop i bitstring) =
          (case map_of REVERSE_TABLE (take 5 (drop i bitstring)) of
             None \<Rightarrow> symbols (drop (i + 5) bitstring)
           | Some c \<Rightarrow> c # symbols (drop (i + 5) bitstring))"
        by (simp add: add.commute split: option.splits)
      show ?thesis
      proof (cases "map_of REVERSE_TABLE (take 5 (drop i bitstring))")
        case None
        with "1.IH"(1) [OF True full None] True long sym show ?thesis
          by (subst scan_loop.simps) simp
      next
        case (Some c)
        show ?thesis
        proof (cases "slide stop_buffer c = STOP_WORD")
          case True
          with \<open>i < length bitstring\<close> long Some sym show ?thesis
            by (subst scan_loop.simps) simp
        next
          case False
          with "1.IH"(2) [OF True full Some False] True long Some sym show ?thesis
            by (subst scan_loop.simps) simp
        qed
      qed
    qed
  qed
qed

lemma stop_length: "length STOP_WORD = 4"
  by (simp add: STOP_WORD_def)

lemma slide_window: "slide (window decoded) c = window (decoded @ [c])"
proof (cases "length decoded < 4")
  case True
  then show ?thesis
    by (simp add: slide_def window_def stop_length)
next
  case False
  then have "Suc (length decoded - 4) = length decoded - 3"
    by arith
  with False show ?thesis
    by (simp add: slide_def window_def stop_length)
qed

lemma window_empty: "window [] = []"
  by (simp add: window_def)

lemma window_stop: "(window decoded = STOP_WORD) = suffix STOP_WORD decoded"
proof
  assume "window decoded = STOP_WORD"
  then have "decoded = take (length decoded - length STOP_WORD) decoded @ STOP_WORD"
    by (metis append_take_drop_id window_def)
  then show "suffix STOP_WORD decoded"
    by (metis suffixI)
next
  assume "suffix STOP_WORD decoded"
  then obtain zs where "decoded = zs @ STOP_WORD"
    by (auto simp: suffix_def)
  then show "window decoded = STOP_WORD"
    by (simp add: window_def)
qed

lemma trim_stop_suffix: "suffix STOP_WORD decoded \<Longrightarrow> trim_stop decoded @ STOP_WORD = decoded"
  by (auto simp: suffix_def trim_stop_def)

lemma find_stop_sound:
  "\<not> sublist STOP_WORD decoded \<Longrightarrow>
   (case find_stop cs decoded (window decoded) of
      None \<Rightarrow> \<not> sublist STOP_WORD (decoded @ cs)
    | Some m \<Rightarrow> \<not> sublist STOP_WORD m \<and> prefix (m @ STOP_WORD) (decoded @ cs))"
proof (induction cs arbitrary: decoded)
  case Nil
  then show ?case by simp
next
  case (Cons c cs)
  show ?case
  proof (cases "window (decoded @ [c]) = STOP_WORD")
    case True
    then have suf: "suffix STOP_WORD (decoded @ [c])"
      by (simp add: window_stop)
    let ?m = "trim_stop (decoded @ [c])"
    have eq: "?m @ STOP_WORD = decoded @ [c]"
      by (rule trim_stop_suffix [OF suf])
    have "prefix ?m decoded"
      by (simp add: trim_stop_def stop_length take_is_prefix)
    then have "sublist ?m decoded"
      by (rule prefix_imp_sublist)
    with Cons.prems have "\<not> sublist STOP_WORD ?m"
      using sublist_order.order_trans by blast
    moreover have "prefix (?m @ STOP_WORD) (decoded @ c # cs)"
      unfolding eq by simp
    ultimately show ?thesis
      using True by (simp add: slide_window)
  next
    case False
    then have "\<not> suffix STOP_WORD (decoded @ [c])"
      by (simp add: window_stop)
    with Cons.prems have "\<not> sublist STOP_WORD (decoded @ [c])"
      by (simp add: sublist_snoc)
    from Cons.IH [OF this] False show ?thesis
      by (auto simp: slide_window split: option.splits)
  qed
qed

lemma find_stop_none:
  "(find_stop cs [] [] = None) = (\<not> sublist STOP_WORD cs)"
proof -
  have ns: "\<not> sublist STOP_WORD []"
    by (simp add: STOP_WORD_def)
  show ?thesis
  proof (cases "find_stop cs [] []")
    case None
    with find_stop_sound [OF ns, of cs] show ?thesis
      by (simp add: window_empty)
  next
    case (Some m)
    with find_stop_sound [OF ns, of cs] have "prefix (m @ STOP_WORD) cs"
      by (simp add: window_empty)
    then obtain zs where "cs = m @ STOP_WORD @ zs"
      by (auto simp: prefix_def)
    then have "sublist STOP_WORD cs"
      by simp
    with Some show ?thesis by simp
  qed
qed

lemma slide_last: "slide stop_buffer c \<noteq> [] \<and> last (slide stop_buffer c) = c"
proof -
  have "last (drop n (stop_buffer @ [c])) = c" if "n < length (stop_buffer @ [c])" for n
    using that by (simp add: last_drop)
  then show ?thesis
    by (auto simp: slide_def Let_def stop_length)
qed

lemma slide_not_stop: "c \<noteq> CHR ''p'' \<Longrightarrow> slide stop_buffer c \<noteq> STOP_WORD"
  using slide_last [of stop_buffer c] by (auto simp: STOP_WORD_def)

lemma find_stop_first:
  "\<not> sublist STOP_WORD (decoded @ s) \<Longrightarrow>
   find_stop (s @ STOP_WORD @ rest) decoded (window decoded) = Some (decoded @ s)"
proof (induction s arbitrary: decoded)
  case Nil
  have "suffix STOP_WORD (decoded @ STOP_WORD)"
    by (rule suffixI) simp
  then have "window (decoded @ STOP_WORD) = STOP_WORD"
    by (simp only: window_stop)
  then have w: "window (decoded @ ''stop'') = STOP_WORD"
    by (simp add: STOP_WORD_def)
  have t: "trim_stop (decoded @ ''stop'') = decoded"
    by (simp add: trim_stop_def stop_length)
  have s4: "slide (slide (slide (slide (window decoded) CHR ''s'') CHR ''t'') CHR ''o'') CHR ''p''
                 = STOP_WORD"
    using w by (simp add: slide_window)
  have "find_stop (''stop'' @ rest) decoded (window decoded) = Some decoded"
    by (simp add: slide_not_stop s4 t)
  then show ?case
    by (simp add: STOP_WORD_def)
next
  case (Cons c s)
  have "\<not> suffix STOP_WORD (decoded @ [c])"
  proof
    assume "suffix STOP_WORD (decoded @ [c])"
    then obtain zs where "decoded @ [c] = zs @ STOP_WORD"
      by (auto simp: suffix_def)
    then have "(decoded @ [c]) @ s = zs @ STOP_WORD @ s"
      by simp
    then have "sublist STOP_WORD ((decoded @ [c]) @ s)"
      by (simp only: sublist_appendI)
    with Cons.prems show False by simp
  qed
  then have ns: "slide (window decoded) c \<noteq> STOP_WORD"
    by (simp add: slide_window window_stop)
  from Cons.prems have "\<not> sublist STOP_WORD ((decoded @ [c]) @ s)"
    by simp
  from Cons.IH [OF this] ns show ?case
    by (simp add: slide_window)
qed

subsection \<open>What encoding writes\<close>

lemma key_code:
  assumes "c \<in> fst ` set BAUDOT_TABLE"
  shows "map_of BAUDOT_TABLE c = Some (code_of c)" and "length (code_of c) = 5"
    and "set (code_of c) \<subseteq> {CHR ''0'', CHR ''1''}"
    and "map_of REVERSE_TABLE (code_of c) = Some c"
proof -
  from assms obtain code where code: "map_of BAUDOT_TABLE c = Some code"
    by (metis map_of_eq_None_iff not_None_eq)
  then show look: "map_of BAUDOT_TABLE c = Some (code_of c)"
    by (simp add: code_of_def)
  from code have "(c, code) \<in> set BAUDOT_TABLE"
    by (rule map_of_SomeD)
  with table_shape have "length code = 5 \<and> set code \<subseteq> {CHR ''0'', CHR ''1''}"
    unfolding list_all_iff by fast
  with code show "length (code_of c) = 5" and "set (code_of c) \<subseteq> {CHR ''0'', CHR ''1''}"
    by (simp_all add: code_of_def)
  from look show "map_of REVERSE_TABLE (code_of c) = Some c"
    by (simp only: reverse_table_lookup)
qed

lemma append_codes_keys:
  "set s \<subseteq> fst ` set BAUDOT_TABLE \<Longrightarrow> append_codes e s acc = Inr (acc @ codes s)"
proof (induction s arbitrary: acc)
  case Nil
  then show ?case by (simp add: codes_def)
next
  case (Cons c s)
  then have "c \<in> fst ` set BAUDOT_TABLE" and rest: "set s \<subseteq> fst ` set BAUDOT_TABLE"
    by simp_all
  from key_code(1) [OF this(1)] Cons.IH [OF rest] show ?case
    by (simp add: codes_def)
qed

lemma append_codes_other:
  "\<not> set s \<subseteq> fst ` set BAUDOT_TABLE \<Longrightarrow> append_codes e s acc = Inl e"
proof (induction s arbitrary: acc)
  case Nil
  then show ?case by simp
next
  case (Cons c s)
  show ?case
  proof (cases "map_of BAUDOT_TABLE c")
    case None
    then show ?thesis by simp
  next
    case (Some code)
    then have "c \<in> fst ` set BAUDOT_TABLE"
      by (metis map_of_eq_None_iff option.distinct(1))
    with Cons.prems have "\<not> set s \<subseteq> fst ` set BAUDOT_TABLE"
      by simp
    from Cons.IH [OF this] Some show ?thesis
      by simp
  qed
qed

lemma codes_bits: "set s \<subseteq> fst ` set BAUDOT_TABLE \<Longrightarrow> set (codes s) \<subseteq> {CHR ''0'', CHR ''1''}"
  using key_code(3) by (fastforce simp: codes_def)

lemma codes_append: "codes (s @ t) = codes s @ codes t"
  by (simp add: codes_def)

lemma symbols_codes:
  "set s \<subseteq> fst ` set BAUDOT_TABLE \<Longrightarrow> symbols (codes s @ rest) = s @ symbols rest"
proof (induction s)
  case Nil
  then show ?case by (simp add: codes_def)
next
  case (Cons c s)
  then have c: "c \<in> fst ` set BAUDOT_TABLE" and s: "set s \<subseteq> fst ` set BAUDOT_TABLE"
    by simp_all
  have split: "codes (c # s) @ rest = code_of c @ codes s @ rest"
    by (simp add: codes_def)
  have "symbols (code_of c @ codes s @ rest) = c # symbols (codes s @ rest)"
    using key_code(2,4) [OF c] by (subst symbols_full) simp_all
  with Cons.IH [OF s] show ?case
    by (simp only: split append_Cons)
qed

lemma stop_keys: "set STOP_WORD \<subseteq> fst ` set BAUDOT_TABLE"
  by (simp add: STOP_WORD_def BAUDOT_TABLE_def)

lemma packed_symbols:
  assumes "set s \<subseteq> fst ` set BAUDOT_TABLE"
  shows "\<exists>bytes rest. bits_to_bytes (codes s @ codes STOP_WORD) = Inr bytes \<and>
           symbols (bytes_to_bits bytes) = s @ STOP_WORD @ rest"
proof -
  have keys: "set (s @ STOP_WORD) \<subseteq> fst ` set BAUDOT_TABLE"
    using assms stop_keys by simp
  from unpack_pack_bits [OF codes_bits [OF keys]] obtain bytes k where
    bytes: "bits_to_bytes (codes (s @ STOP_WORD)) = Inr bytes"
      "bytes_to_bits bytes = codes (s @ STOP_WORD) @ replicate k CHR ''0''"
    by blast
  have "symbols (bytes_to_bits bytes) = (s @ STOP_WORD) @ symbols (replicate k CHR ''0'')"
    unfolding bytes(2) by (rule symbols_codes [OF keys])
  with bytes(1) show ?thesis
    by (simp add: codes_append)
qed

lemma encode_to_file_keys:
  "set s \<subseteq> fst ` set BAUDOT_TABLE \<Longrightarrow>
   encode_to_file s = bits_to_bytes (codes s @ codes STOP_WORD)"
  by (simp add: encode_to_file_def append_codes_keys stop_keys)

lemma build_encoded_bytes_keys:
  "set s \<subseteq> fst ` set BAUDOT_TABLE \<Longrightarrow>
   build_encoded_bytes s = bits_to_bytes (codes s @ codes STOP_WORD)"
  by (simp add: build_encoded_bytes_def append_codes_keys stop_keys)

lemma build_encoded_bytes_other:
  "\<not> set s \<subseteq> fst ` set BAUDOT_TABLE \<Longrightarrow> build_encoded_bytes s = Inl KeyError"
  by (simp add: build_encoded_bytes_def append_codes_other)

lemma scan_start:
  "scan_loop bitstring 0 [] [] = find_stop (symbols bitstring) [] []"
  using scan_loop_symbols [of bitstring 0 "[]" "[]"] by simp

lemma scan_result:
  "scan_loop bitstring 0 [] [] = Some m \<Longrightarrow>
   \<not> sublist STOP_WORD m \<and> prefix (m @ STOP_WORD) (symbols bitstring)"
proof -
  assume "scan_loop bitstring 0 [] [] = Some m"
  then have "find_stop (symbols bitstring) [] (window []) = Some m"
    by (simp add: scan_start window_empty)
  moreover have "\<not> sublist STOP_WORD []"
    by (simp add: STOP_WORD_def)
  ultimately show ?thesis
    using find_stop_sound [of "[]" "symbols bitstring"] by simp
qed

lemma scan_none:
  "(scan_loop bitstring 0 [] [] = None) = (\<not> sublist STOP_WORD (symbols bitstring))"
  by (simp add: scan_start find_stop_none)

lemma scan_first:
  "\<not> sublist STOP_WORD s \<Longrightarrow> symbols bitstring = s @ STOP_WORD @ rest \<Longrightarrow>
   scan_loop bitstring 0 [] [] = Some s"
  using find_stop_first [of "[]" s rest] by (simp add: scan_start window_empty)

lemma scan_some:
  "symbols bitstring = s @ STOP_WORD @ rest \<Longrightarrow> \<exists>m. scan_loop bitstring 0 [] [] = Some m"
proof -
  assume "symbols bitstring = s @ STOP_WORD @ rest"
  then have "sublist STOP_WORD (symbols bitstring)"
    by simp
  then have "scan_loop bitstring 0 [] [] \<noteq> None"
    by (simp add: scan_none)
  then show ?thesis by auto
qed

subsection \<open>What decoding returns\<close>

lemma main_decode_cases:
  "main_decode_from_file byte_data =
     (case scan_loop (bytes_to_bits byte_data) 0 [] [] of
        None \<Rightarrow> StopWordNotFound | Some m \<Rightarrow> Decoded m)"
  by (simp add: main_decode_from_file_def)

text \<open>
  Claim C10: whatever bytes are decoded, a message that the scan returns does not
  contain the stop word, and the message followed by the stop word is the beginning of
  the symbol stream (the match that ended the scan is the first one). For
  \<^verbatim>\<open>main.py\<close> the message is what is printed; for \<^verbatim>\<open>1.53.py\<close> what is printed is
  \<^verbatim>\<open>apply_shortcuts_decode\<close> of such a message.
\<close>

theorem decoded_message_has_no_stop_word:
  "(main_decode_from_file byte_data = Decoded m \<longrightarrow>
      \<not> sublist STOP_WORD m \<and> prefix (m @ STOP_WORD) (symbols (bytes_to_bits byte_data))) \<and>
   (decode_from_file WORD_SHORTCUTS decompress byte_data = Decoded out \<longrightarrow>
      (\<exists>m'. out = apply_shortcuts_decode WORD_SHORTCUTS m' \<and> \<not> sublist STOP_WORD m'))"
proof -
  have "\<not> sublist STOP_WORD m \<and> prefix (m @ STOP_WORD) (symbols (bytes_to_bits byte_data))"
    if "main_decode_from_file byte_data = Decoded m"
  proof -
    from that have "scan_loop (bytes_to_bits byte_data) 0 [] [] = Some m"
      by (simp add: main_decode_cases split: option.splits)
    then show ?thesis
      by (rule scan_result)
  qed
  moreover have "\<exists>m'. out = apply_shortcuts_decode WORD_SHORTCUTS m' \<and> \<not> sublist STOP_WORD m'"
    if "decode_from_file WORD_SHORTCUTS decompress byte_data = Decoded out"
  proof -
    let ?data = "case decompress byte_data of Some d \<Rightarrow> d | None \<Rightarrow> byte_data"
    from that obtain m' where m': "scan_loop (bytes_to_bits ?data) 0 [] [] = Some m'"
      and out: "out = apply_shortcuts_decode WORD_SHORTCUTS m'"
      by (auto simp: decode_from_file_def Let_def split: option.splits)
    from scan_result [OF m'] out show ?thesis
      by blast
  qed
  ultimately show ?thesis
    by blast
qed

text \<open>
  Claim C10 on the nine bytes that encode \<open>hello stop\<close>: the scan ends at the stop word
  of the text and returns \<open>hello\<close> with its blank, which does not contain the stop word.
\<close>

theorem decoded_message_has_no_stop_word_witness:
  "main_decode_from_file [160, 101, 44, 16, 176, 197, 139, 12, 88] = Decoded ''hello '' \<and>
   \<not> sublist STOP_WORD ''hello ''"
proof -
  have d: "main_decode_from_file [160, 101, 44, 16, 176, 197, 139, 12, 88] = Decoded ''hello ''"
    by code_simp
  with decoded_message_has_no_stop_word
    [of "[160, 101, 44, 16, 176, 197, 139, 12, 88]" "''hello ''"]
  show ?thesis
    by blast
qed

text \<open>
  Claim C7: an artifact of no bytes decodes to \<open>StopWordNotFound\<close>, in \<^verbatim>\<open>main.py\<close> and,
  \<^verbatim>\<open>zlib.decompress\<close> raising on the empty input, in \<^verbatim>\<open>1.53.py\<close>. More generally the
  outcome is \<open>StopWordNotFound\<close>, which carries no text, exactly when the stop word does
  not occur in the symbol stream of the scanned bytes. The outcome type has no
  exception: nothing in \<^verbatim>\<open>decode_from_file\<close> raises but \<^verbatim>\<open>zlib.decompress\<close>, which is
  caught.
\<close>

theorem empty_artifact_not_found:
  "main_decode_from_file [] = StopWordNotFound \<and>
   (decompress [] = None \<longrightarrow> decode_from_file WORD_SHORTCUTS decompress [] = StopWordNotFound) \<and>
   ((main_decode_from_file byte_data = StopWordNotFound) =
      (\<not> sublist STOP_WORD (symbols (bytes_to_bits byte_data)))) \<and>
   ((decode_from_file WORD_SHORTCUTS decompress byte_data = StopWordNotFound) =
      (\<not> sublist STOP_WORD
          (symbols (bytes_to_bits
             (case decompress byte_data of Some d \<Rightarrow> d | None \<Rightarrow> byte_data)))))"
proof -
  have empty: "scan_loop (bytes_to_bits []) 0 [] [] = None"
    by (subst scan_loop.simps) (simp add: bytes_to_bits_def)
  have "main_decode_from_file [] = StopWordNotFound"
    by (simp add: main_decode_cases empty)
  moreover have "decode_from_file WORD_SHORTCUTS decompress [] = StopWordNotFound"
    if "decompress [] = None"
    using that by (simp add: decode_from_file_def empty)
  moreover have "(main_decode_from_file byte_data = StopWordNotFound) =
      (\<not> sublist STOP_WORD (symbols (bytes_to_bits byte_data)))"
    using scan_none [of "bytes_to_bits byte_data"]
    by (auto simp: main_decode_cases split: option.splits)
  moreover have "(decode_from_file WORD_SHORTCUTS decompress byte_data = StopWordNotFound) =
      (\<not> sublist STOP_WORD
          (symbols (bytes_to_bits
             (case decompress byte_data of Some d \<Rightarrow> d | None \<Rightarrow> byte_data))))"
    using scan_none
      [of "bytes_to_bits (case decompress byte_data of Some d \<Rightarrow> d | None \<Rightarrow> byte_data)"]
    by (auto simp: decode_from_file_def Let_def split: option.splits)
  ultimately show ?thesis
    by blast
qed

text \<open>
  Claim C7 with a decompressor that rejects every input, and on one byte that holds no
  code of the stop word.
\<close>

theorem empty_artifact_not_found_witness:
  "decode_from_file [] (\<lambda>b. None) [] = StopWordNotFound \<and>
   main_decode_from_file [] = StopWordNotFound \<and>
   main_decode_from_file [160] = StopWordNotFound \<and>
   \<not> sublist STOP_WORD (symbols (bytes_to_bits [160]))"
proof -
  have "main_decode_from_file [160] = StopWordNotFound"
    by code_simp
  with empty_artifact_not_found [of "\<lambda>b. None" "[]" "[160]"] show ?thesis
    by simp
qed

subsection \<open>The pipeline of 1.53.py\<close>

lemma key_plain:
  "c \<in> fst ` set BAUDOT_TABLE \<Longrightarrow> \<not> unicode_error c \<and> c \<noteq> newline \<and> \<not> isupper c"
  by (auto simp: BAUDOT_TABLE_def unicode_error_def newline_def isupper_def)

lemma unicode_loop_keys:
  "set s \<subseteq> fst ` set BAUDOT_TABLE \<Longrightarrow> unicode_loop s line column errors = errors"
  by (induction s arbitrary: line column errors) (simp_all add: key_plain)

lemma read_text_file_keys: "set s \<subseteq> fst ` set BAUDOT_TABLE \<Longrightarrow> read_text_file s = Some s"
  by (simp add: read_text_file_def unicode_loop_keys)

lemma rstrip_newline_keys: "set s \<subseteq> fst ` set BAUDOT_TABLE \<Longrightarrow> rstrip_newline s = s"
proof -
  assume "set s \<subseteq> fst ` set BAUDOT_TABLE"
  then have "\<forall>c \<in> set (rev s). \<not> c = newline"
    using key_plain by auto
  then have "dropWhile (\<lambda>c. c = newline) (rev s) = rev s"
    by (cases "rev s") auto
  then show ?thesis
    by (simp add: rstrip_newline_def)
qed

lemma validate_loop_keys:
  "set m \<subseteq> fst ` set BAUDOT_TABLE \<Longrightarrow> validate_loop m line column errors = errors"
proof (induction m arbitrary: line column errors)
  case Nil
  then show ?case by simp
next
  case (Cons c m)
  then have c: "c \<in> fst ` set BAUDOT_TABLE" and m: "set m \<subseteq> fst ` set BAUDOT_TABLE"
    by simp_all
  from key_plain [OF c] key_code(1) [OF c] Cons.IH [OF m] show ?case
    by simp
qed

lemma handle_compression_cases:
  "handle_compression compress raw u c k = raw \<and> (u \<longrightarrow> c) \<or>
   handle_compression compress raw u c k = compress raw \<and> u"
  by (simp add: handle_compression_def)

lemma saved_artifact:
  assumes "encode_to_file_from_text WORD_SHORTCUTS compress txt u c k = Saved data"
  shows "set (apply_shortcuts_encode WORD_SHORTCUTS (rstrip_newline txt)) \<subseteq> fst ` set BAUDOT_TABLE \<and>
         (\<exists>raw. build_encoded_bytes (apply_shortcuts_encode WORD_SHORTCUTS (rstrip_newline txt)) = Inr raw \<and>
            data = handle_compression compress raw u c k)"
proof -
  let ?m = "apply_shortcuts_encode WORD_SHORTCUTS (rstrip_newline txt)"
  from assms obtain raw where raw: "build_encoded_bytes ?m = Inr raw"
    and data: "data = handle_compression compress raw u c k"
    by (auto simp: encode_to_file_from_text_def read_text_file_def Let_def
        split: if_splits sum.splits)
  have "set ?m \<subseteq> fst ` set BAUDOT_TABLE"
  proof (rule ccontr)
    assume "\<not> set ?m \<subseteq> fst ` set BAUDOT_TABLE"
    from build_encoded_bytes_other [OF this] raw show False
      by simp
  qed
  with raw data show ?thesis
    by blast
qed

lemma artifact_saved:
  assumes "encode_to_file_from_text WORD_SHORTCUTS compress txt u c k = Saved data"
  shows "\<exists>data'. encode_to_file_from_text WORD_SHORTCUTS compress txt u' c' k' = Saved data'"
  using assms
  by (auto simp: encode_to_file_from_text_def read_text_file_def Let_def
      split: if_splits sum.splits)

lemma decode_raw:
  assumes "set m \<subseteq> fst ` set BAUDOT_TABLE" and "build_encoded_bytes m = Inr raw"
    and "decompress data = Some raw \<or> decompress data = None \<and> data = raw"
  shows "\<exists>m'. scan_loop (bytes_to_bits raw) 0 [] [] = Some m' \<and>
           decode_from_file WORD_SHORTCUTS decompress data =
             Decoded (apply_shortcuts_decode WORD_SHORTCUTS m') \<and>
           (\<not> sublist STOP_WORD m \<longrightarrow> m' = m)"
proof -
  from packed_symbols [OF assms(1)] assms(2) obtain rest where
    sym: "symbols (bytes_to_bits raw) = m @ STOP_WORD @ rest"
    by (auto simp: build_encoded_bytes_keys [OF assms(1)])
  from scan_some [OF sym] obtain m' where m': "scan_loop (bytes_to_bits raw) 0 [] [] = Some m'"
    by blast
  have "(case decompress data of Some d \<Rightarrow> d | None \<Rightarrow> data) = raw"
    using assms(3) by auto
  then have "decode_from_file WORD_SHORTCUTS decompress data =
      Decoded (apply_shortcuts_decode WORD_SHORTCUTS m')"
    by (simp add: decode_from_file_def m')
  moreover have "m' = m" if "\<not> sublist STOP_WORD m"
    using scan_first [OF that sym] m' by simp
  ultimately show ?thesis
    using m' by blast
qed

lemma decode_artifact:
  assumes raw: "encode_to_file_from_text WORD_SHORTCUTS compress txt False c k = Saved raw"
    and rejected: "decompress raw = None"
    and lossless: "decompress (compress raw) = Some raw"
    and data: "encode_to_file_from_text WORD_SHORTCUTS compress txt u c' k' = Saved data"
  shows "\<exists>m'. scan_loop (bytes_to_bits raw) 0 [] [] = Some m' \<and>
           decode_from_file WORD_SHORTCUTS decompress data =
             Decoded (apply_shortcuts_decode WORD_SHORTCUTS m') \<and>
           (\<not> sublist STOP_WORD (apply_shortcuts_encode WORD_SHORTCUTS (rstrip_newline txt)) \<longrightarrow>
              m' = apply_shortcuts_encode WORD_SHORTCUTS (rstrip_newline txt))"
proof -
  let ?m = "apply_shortcuts_encode WORD_SHORTCUTS (rstrip_newline txt)"
  from saved_artifact [OF raw] have m: "set ?m \<subseteq> fst ` set BAUDOT_TABLE"
    and built: "build_encoded_bytes ?m = Inr raw"
    by (auto simp: handle_compression_def)
  from saved_artifact [OF data] built
  have "data = handle_compression compress raw u c' k'"
    by auto
  with handle_compression_cases [of compress raw u c' k']
  have "data = raw \<or> data = compress raw"
    by auto
  with rejected lossless
  have "decompress data = Some raw \<or> decompress data = None \<and> data = raw"
    by auto
  then show ?thesis
    using decode_raw [of ?m raw decompress data WORD_SHORTCUTS] m built by blast
qed

lemma encode_to_file_accepts:
  "encode_to_file s = Inr bytes \<Longrightarrow> set s \<subseteq> fst ` set BAUDOT_TABLE"
proof (rule ccontr)
  assume "encode_to_file s = Inr bytes" and "\<not> set s \<subseteq> fst ` set BAUDOT_TABLE"
  then show False
    by (simp add: encode_to_file_def append_codes_other)
qed

lemma main_decode_encoded:
  assumes "encode_to_file s = Inr bytes"
  shows "\<exists>m'. main_decode_from_file bytes = Decoded m' \<and> (\<not> sublist STOP_WORD s \<longrightarrow> m' = s)"
proof -
  from encode_to_file_accepts [OF assms] have keys: "set s \<subseteq> fst ` set BAUDOT_TABLE" .
  from packed_symbols [OF keys] assms obtain rest where
    sym: "symbols (bytes_to_bits bytes) = s @ STOP_WORD @ rest"
    by (auto simp: encode_to_file_keys [OF keys])
  from scan_some [OF sym] obtain m' where m': "scan_loop (bytes_to_bits bytes) 0 [] [] = Some m'"
    by blast
  moreover have "m' = s" if "\<not> sublist STOP_WORD s"
    using scan_first [OF that sym] m' by simp
  ultimately show ?thesis
    by (simp add: main_decode_cases)
qed

subsection \<open>Terminator safety and the compression fallback\<close>

lemma collision_built:
  "build_encoded_bytes ''eefypv2wbkbpgpoee32tdac'' =
     Inr [8, 91, 91, 123, 115, 203, 243, 109, 91, 1, 15, 247, 4, 141, 197, 134, 44]"
  by code_simp

lemma collision_text:
  "read_text_file ''eefypv2wbkbpgpoee32tdac'' = Some ''eefypv2wbkbpgpoee32tdac''"
  "apply_shortcuts_encode [] (rstrip_newline ''eefypv2wbkbpgpoee32tdac'') = ''eefypv2wbkbpgpoee32tdac''"
  "validate_message ''eefypv2wbkbpgpoee32tdac'' = []"
  by code_simp+

lemma collision_saved:
  "encode_to_file_from_text [] compress ''eefypv2wbkbpgpoee32tdac'' u c k =
     Saved (handle_compression compress
       [8, 91, 91, 123, 115, 203, 243, 109, 91, 1, 15, 247, 4, 141, 197, 134, 44] u c k)"
  by (simp add: encode_to_file_from_text_def collision_text collision_built)

lemma collision_decoded:
  "decode_from_file [] zlib_decompress_observed
     [8, 91, 91, 123, 115, 203, 243, 109, 91, 1, 15, 247, 4, 141, 197, 134, 44] = StopWordNotFound"
  "decode_from_file [] zlib_decompress_observed
     [120, 156, 227, 136, 142, 174, 46, 62, 253, 57, 55, 154, 145, 255, 59, 75, 239, 209, 54,
      29, 0, 63, 163, 7, 66] = Decoded ''eefypv2wbkbpgpoee32tdac''"
  by code_simp+




lemma dispose_saved:
  "encode_to_file_from_text [(''dispose'', ''dpo'')] zlib_compress_observed ''please dispose now''
     False False False = Saved [180, 130, 50, 132, 137, 182, 8, 204, 76, 176, 197, 128]"
  "encode_to_file_from_text [(''dispose'', ''dpo'')] zlib_compress_observed ''please dispose now''
     True False False =
     Saved [120, 156, 219, 210, 100, 212, 210, 185, 141, 227, 140, 207, 134, 163, 13, 0, 39, 98,
       6, 65]"
  by code_simp+

lemma dispose_zlib:
  "zlib_decompress_observed [180, 130, 50, 132, 137, 182, 8, 204, 76, 176, 197, 128] = None"
  "zlib_decompress_observed
     (zlib_compress_observed [180, 130, 50, 132, 137, 182, 8, 204, 76, 176, 197, 128]) =
     Some [180, 130, 50, 132, 137, 182, 8, 204, 76, 176, 197, 128]"
  by code_simp+


text \<open>
  Claim C4, as stated, fails in \<^verbatim>\<open>1.53.py\<close> at the text of C2's counterexample: its
  compressed artifact decodes to the text, its uncompressed artifact to
  \<open>StopWordNotFound\<close>.
\<close>

theorem compression_fallback_counterexample:
  "encode_to_file_from_text [] zlib_compress_observed ''eefypv2wbkbpgpoee32tdac'' False False False =
     Saved [8, 91, 91, 123, 115, 203, 243, 109, 91, 1, 15, 247, 4, 141, 197, 134, 44] \<and>
   encode_to_file_from_text [] zlib_compress_observed ''eefypv2wbkbpgpoee32tdac'' True False False =
     Saved [120, 156, 227, 136, 142, 174, 46, 62, 253, 57, 55, 154, 145, 255, 59, 75, 239, 209, 54,
       29, 0, 63, 163, 7, 66] \<and>
   decode_from_file [] zlib_decompress_observed
     [120, 156, 227, 136, 142, 174, 46, 62, 253, 57, 55, 154, 145, 255, 59, 75, 239, 209, 54,
      29, 0, 63, 163, 7, 66] = Decoded ''eefypv2wbkbpgpoee32tdac'' \<and>
   decode_from_file [] zlib_decompress_observed
     [8, 91, 91, 123, 115, 203, 243, 109, 91, 1, 15, 247, 4, 141, 197, 134, 44] = StopWordNotFound"
proof -
  have "zlib_compress_observed
      [8, 91, 91, 123, 115, 203, 243, 109, 91, 1, 15, 247, 4, 141, 197, 134, 44] =
      [120, 156, 227, 136, 142, 174, 46, 62, 253, 57, 55, 154, 145, 255, 59, 75, 239, 209, 54,
       29, 0, 63, 163, 7, 66]"
    by code_simp
  then have "encode_to_file_from_text [] zlib_compress_observed ''eefypv2wbkbpgpoee32tdac''
        True False False =
      Saved [120, 156, 227, 136, 142, 174, 46, 62, 253, 57, 55, 154, 145, 255, 59, 75, 239, 209,
        54, 29, 0, 63, 163, 7, 66]"
    by (simp only: collision_saved handle_compression_def not_False_eq_True not_True_eq_False
        if_True if_False simp_thms)
  moreover have "encode_to_file_from_text [] zlib_compress_observed ''eefypv2wbkbpgpoee32tdac''
        False False False =
      Saved [8, 91, 91, 123, 115, 203, 243, 109, 91, 1, 15, 247, 4, 141, 197, 134, 44]"
    by (simp only: collision_saved handle_compression_def not_False_eq_True if_True)
  ultimately show ?thesis
    using collision_decoded by blast
qed

text \<open>
  Claim C4, amended: when \<^verbatim>\<open>zlib.decompress\<close> raises on the uncompressed artifact of a
  text and returns that artifact from the compressed one, decoding the two artifacts
  gives the same outcome, and it is a decoded text. Whenever \<^verbatim>\<open>zlib.decompress\<close> raises,
  \<^verbatim>\<open>decode_from_file\<close> decodes the bytes as they are.
\<close>

theorem compression_fallback:
  "(encode_to_file_from_text WORD_SHORTCUTS compress txt False c k = Saved raw \<and>
    encode_to_file_from_text WORD_SHORTCUTS compress txt True False k' = Saved zipped \<and>
    decompress raw = None \<and> decompress zipped = Some raw \<longrightarrow>
      decode_from_file WORD_SHORTCUTS decompress zipped =
        decode_from_file WORD_SHORTCUTS decompress raw \<and>
      (\<exists>out. decode_from_file WORD_SHORTCUTS decompress raw = Decoded out)) \<and>
   (decompress byte_data = None \<longrightarrow>
      decode_from_file WORD_SHORTCUTS decompress byte_data =
        decode_from_file WORD_SHORTCUTS (\<lambda>b. None) byte_data)"
proof -
  have "decode_from_file WORD_SHORTCUTS decompress zipped =
          decode_from_file WORD_SHORTCUTS decompress raw \<and>
        (\<exists>out. decode_from_file WORD_SHORTCUTS decompress raw = Decoded out)"
    if raw: "encode_to_file_from_text WORD_SHORTCUTS compress txt False c k = Saved raw"
      and zipped: "encode_to_file_from_text WORD_SHORTCUTS compress txt True False k' = Saved zipped"
      and rejected: "decompress raw = None" and lossless: "decompress zipped = Some raw"
  proof -
    from saved_artifact [OF raw] saved_artifact [OF zipped] have "zipped = compress raw"
      by (auto simp: handle_compression_def)
    with lossless have l: "decompress (compress raw) = Some raw"
      by simp
    from decode_artifact [OF raw rejected l raw] decode_artifact [OF raw rejected l zipped]
    show ?thesis
      by auto
  qed
  moreover have "decode_from_file WORD_SHORTCUTS decompress byte_data =
      decode_from_file WORD_SHORTCUTS (\<lambda>b. None) byte_data"
    if "decompress byte_data = None"
    using that by (simp add: decode_from_file_def)
  ultimately show ?thesis
    by blast
qed

lemma hello_saved:
  "encode_to_file_from_text [(''dispose'', ''dpo'')] zlib_compress_observed ''hello stop''
     False False False = Saved [160, 101, 44, 16, 176, 197, 139, 12, 88]"
  "encode_to_file_from_text [(''dispose'', ''dpo'')] zlib_compress_observed ''hello stop''
     True False False =
     Saved [120, 156, 91, 144, 170, 35, 176, 225, 104, 55, 79, 4, 0, 18, 250, 3, 166]"
  by code_simp+

lemma hello_zlib:
  "zlib_decompress_observed [160, 101, 44, 16, 176, 197, 139, 12, 88] = None"
  "zlib_decompress_observed [120, 156, 91, 144, 170, 35, 176, 225, 104, 55, 79, 4, 0, 18, 250, 3, 166]
     = Some [160, 101, 44, 16, 176, 197, 139, 12, 88]"
  by code_simp+

text \<open>Claim C4 at the text \<open>hello stop\<close>: both artifacts decode to the same text.\<close>

theorem compression_fallback_witness:
  "encode_to_file_from_text [(''dispose'', ''dpo'')] zlib_compress_observed ''hello stop''
     False False False = Saved [160, 101, 44, 16, 176, 197, 139, 12, 88] \<and>
   encode_to_file_from_text [(''dispose'', ''dpo'')] zlib_compress_observed ''hello stop''
     True False False =
     Saved [120, 156, 91, 144, 170, 35, 176, 225, 104, 55, 79, 4, 0, 18, 250, 3, 166] \<and>
   decode_from_file [(''dispose'', ''dpo'')] zlib_decompress_observed
     [120, 156, 91, 144, 170, 35, 176, 225, 104, 55, 79, 4, 0, 18, 250, 3, 166] =
   decode_from_file [(''dispose'', ''dpo'')] zlib_decompress_observed
     [160, 101, 44, 16, 176, 197, 139, 12, 88]"
  using compression_fallback
    [of "[(''dispose'', ''dpo'')]" zlib_compress_observed "''hello stop''" False False
      "[160, 101, 44, 16, 176, 197, 139, 12, 88]" False
      "[120, 156, 91, 144, 170, 35, 176, 225, 104, 55, 79, 4, 0, 18, 250, 3, 166]"
      zlib_decompress_observed]
    hello_saved hello_zlib
  by blast

subsection \<open>Round trip\<close>

text \<open>
  Claim C1, as stated, fails at the text \<open>stop\<close>: the scan ends at the text's own stop
  word and the message returned is empty.
\<close>

theorem round_trip_counterexample:
  "set ''stop'' \<subseteq> fst ` set BAUDOT_TABLE \<and>
   encode_to_file ''stop'' = Inr [44, 49, 98, 195, 22] \<and>
   main_decode_from_file [44, 49, 98, 195, 22] = Decoded ''''"
proof -
  have "set ''stop'' \<subseteq> fst ` set BAUDOT_TABLE"
    using stop_keys by (simp add: STOP_WORD_def)
  moreover have "encode_to_file ''stop'' = Inr [44, 49, 98, 195, 22]"
    by code_simp
  moreover have "main_decode_from_file [44, 49, 98, 195, 22] = Decoded ''''"
    by code_simp
  ultimately show ?thesis
    by blast
qed

lemma accepted_keys:
  assumes s: "set s \<subseteq> fst ` set BAUDOT_TABLE"
    and m: "set (apply_shortcuts_encode WORD_SHORTCUTS s) \<subseteq> fst ` set BAUDOT_TABLE"
  shows "\<exists>raw. \<forall>u c k. encode_to_file_from_text WORD_SHORTCUTS compress s u c k =
           Saved (handle_compression compress raw u c k)"
proof -
  let ?m = "apply_shortcuts_encode WORD_SHORTCUTS s"
  from packed_symbols [OF m] obtain raw where "build_encoded_bytes ?m = Inr raw"
    by (auto simp: build_encoded_bytes_keys [OF m])
  moreover have "validate_message ?m = []"
    by (simp add: validate_message_def validate_loop_keys [OF m])
  ultimately have "encode_to_file_from_text WORD_SHORTCUTS compress s u c k =
      Saved (handle_compression compress raw u c k)" for u c k
    by (simp add: encode_to_file_from_text_def read_text_file_keys [OF s]
        rstrip_newline_keys [OF s])
  then show ?thesis
    by blast
qed

text \<open>
  Claim C1, amended. For every string \<open>s\<close> of table characters that does not contain the
  stop word, \<^verbatim>\<open>main.py\<close> decodes what it encoded to exactly \<open>s\<close>. In \<^verbatim>\<open>1.53.py\<close> the
  text on the wire is \<open>s\<close> after abbreviation: when that text consists of table
  characters and does not contain the stop word, and \<^verbatim>\<open>apply_shortcuts_decode\<close> maps it
  back to \<open>s\<close>, the text is accepted, and if \<^verbatim>\<open>zlib.decompress\<close> raises on the packed
  bytes and gives them back from their compressed form, decoding the artifact returns
  exactly \<open>s\<close>, whatever was answered at the compression prompts.
\<close>

theorem round_trip:
  "(set s \<subseteq> fst ` set BAUDOT_TABLE \<and> \<not> sublist STOP_WORD s \<longrightarrow>
      (\<exists>bytes. encode_to_file s = Inr bytes \<and> main_decode_from_file bytes = Decoded s)) \<and>
   (set s \<subseteq> fst ` set BAUDOT_TABLE \<and>
    set (apply_shortcuts_encode WORD_SHORTCUTS s) \<subseteq> fst ` set BAUDOT_TABLE \<and>
    \<not> sublist STOP_WORD (apply_shortcuts_encode WORD_SHORTCUTS s) \<and>
    apply_shortcuts_decode WORD_SHORTCUTS (apply_shortcuts_encode WORD_SHORTCUTS s) = s \<longrightarrow>
      (\<exists>raw. encode_to_file_from_text WORD_SHORTCUTS compress s False c k = Saved raw \<and>
         (decompress raw = None \<and> decompress (compress raw) = Some raw \<longrightarrow>
            (\<forall>u c' k'. \<exists>data.
               encode_to_file_from_text WORD_SHORTCUTS compress s u c' k' = Saved data \<and>
               decode_from_file WORD_SHORTCUTS decompress data = Decoded s))))"
proof -
  have main: "\<exists>bytes. encode_to_file s = Inr bytes \<and> main_decode_from_file bytes = Decoded s"
    if keys: "set s \<subseteq> fst ` set BAUDOT_TABLE" and ns: "\<not> sublist STOP_WORD s"
  proof -
    from packed_symbols [OF keys] obtain bytes where bytes: "encode_to_file s = Inr bytes"
      by (auto simp: encode_to_file_keys [OF keys])
    from main_decode_encoded [OF bytes] ns have "main_decode_from_file bytes = Decoded s"
      by auto
    with bytes show ?thesis
      by blast
  qed
  have full: "\<exists>raw. encode_to_file_from_text WORD_SHORTCUTS compress s False c k = Saved raw \<and>
         (decompress raw = None \<and> decompress (compress raw) = Some raw \<longrightarrow>
            (\<forall>u c' k'. \<exists>data.
               encode_to_file_from_text WORD_SHORTCUTS compress s u c' k' = Saved data \<and>
               decode_from_file WORD_SHORTCUTS decompress data = Decoded s))"
    if keys: "set s \<subseteq> fst ` set BAUDOT_TABLE"
      and m: "set (apply_shortcuts_encode WORD_SHORTCUTS s) \<subseteq> fst ` set BAUDOT_TABLE"
      and ns: "\<not> sublist STOP_WORD (apply_shortcuts_encode WORD_SHORTCUTS s)"
      and undo: "apply_shortcuts_decode WORD_SHORTCUTS (apply_shortcuts_encode WORD_SHORTCUTS s) = s"
  proof -
    from accepted_keys [OF keys m, of compress] obtain raw where
      all: "\<forall>u c k. encode_to_file_from_text WORD_SHORTCUTS compress s u c k =
        Saved (handle_compression compress raw u c k)"
      by blast
    then have saved: "encode_to_file_from_text WORD_SHORTCUTS compress s u c k =
        Saved (handle_compression compress raw u c k)" for u c k
      by blast
    have raw: "encode_to_file_from_text WORD_SHORTCUTS compress s False c k = Saved raw"
      by (simp add: saved handle_compression_def)
    have "\<exists>data. encode_to_file_from_text WORD_SHORTCUTS compress s u c' k' = Saved data \<and>
               decode_from_file WORD_SHORTCUTS decompress data = Decoded s"
      if rejected: "decompress raw = None" and lossless: "decompress (compress raw) = Some raw"
      for u c' k'
    proof -
      from decode_artifact [OF raw rejected lossless saved [of u c' k']] ns undo
      have "decode_from_file WORD_SHORTCUTS decompress (handle_compression compress raw u c' k')
          = Decoded s"
        by (auto simp: rstrip_newline_keys [OF keys])
      with saved [of u c' k'] show ?thesis
        by blast
    qed
    with raw show ?thesis
      by blast
  qed
  from main full show ?thesis
    by blast
qed

lemma dispose_text:
  "set ''please dispose now'' \<subseteq> fst ` set BAUDOT_TABLE"
  "apply_shortcuts_encode [(''dispose'', ''dpo'')] ''please dispose now'' = ''please dpo now''"
  "set ''please dpo now'' \<subseteq> fst ` set BAUDOT_TABLE"
  "\<not> sublist STOP_WORD ''please dispose now''"
  "\<not> sublist STOP_WORD ''please dpo now''"
  "apply_shortcuts_decode [(''dispose'', ''dpo'')] ''please dpo now'' = ''please dispose now''"
  by code_simp+

text \<open>
  Claim C1 at the text \<open>please dispose now\<close>: in \<^verbatim>\<open>main.py\<close>, and in \<^verbatim>\<open>1.53.py\<close> with the
  dictionary \<open>dispose=dpo\<close>, where the packed bytes are those of \<open>please dpo now\<close> and the
  artifact is saved compressed.
\<close>

theorem round_trip_witness:
  "(\<exists>bytes. encode_to_file ''please dispose now'' = Inr bytes \<and>
      main_decode_from_file bytes = Decoded ''please dispose now'') \<and>
   build_encoded_bytes ''please dpo now'' =
     Inr [180, 130, 50, 132, 137, 182, 8, 204, 76, 176, 197, 128] \<and>
   encode_to_file_from_text [(''dispose'', ''dpo'')] zlib_compress_observed ''please dispose now''
     False False False = Saved [180, 130, 50, 132, 137, 182, 8, 204, 76, 176, 197, 128] \<and>
   (\<exists>data. encode_to_file_from_text [(''dispose'', ''dpo'')] zlib_compress_observed
        ''please dispose now'' True False False = Saved data \<and>
      decode_from_file [(''dispose'', ''dpo'')] zlib_decompress_observed data =
        Decoded ''please dispose now'')"
proof -
  have built: "build_encoded_bytes ''please dpo now'' =
      Inr [180, 130, 50, 132, 137, 182, 8, 204, 76, 176, 197, 128]"
    by code_simp
  note rt = round_trip [of "''please dispose now''" "[(''dispose'', ''dpo'')]"
      zlib_compress_observed False False zlib_decompress_observed]
  from rt dispose_text have "\<exists>bytes. encode_to_file ''please dispose now'' = Inr bytes \<and>
      main_decode_from_file bytes = Decoded ''please dispose now''"
    by blast
  moreover from rt dispose_text dispose_saved(1) dispose_zlib
  have "\<exists>data. encode_to_file_from_text [(''dispose'', ''dpo'')] zlib_compress_observed
        ''please dispose now'' True False False = Saved data \<and>
      decode_from_file [(''dispose'', ''dpo'')] zlib_decompress_observed data =
        Decoded ''please dispose now''"
    by (metis encode_outcome.inject(3))
  ultimately show ?thesis
    using built dispose_saved(1) by blast
qed

subsection \<open>The text that contains the stop word\<close>




subsection \<open>Loading the dictionary\<close>

lemma dropWhile_keeps: "c \<in> set s \<Longrightarrow> \<not> P c \<Longrightarrow> c \<in> set (dropWhile P s)"
  by (induction s) auto

lemma strip_keeps: "c \<in> set s \<Longrightarrow> \<not> isspace c \<Longrightarrow> c \<in> set (strip s)"
  unfolding strip_def by (simp add: dropWhile_keeps)

lemma equals_plain:
  "\<not> isspace CHR ''=''" "\<not> allowed_chars CHR ''=''"
  by (simp_all add: isspace_def allowed_chars_def BAUDOT_TABLE_def)

lemma second_equals:
  assumes "CHR ''='' \<in> set line" and "count_list line CHR ''='' \<noteq> 1"
  shows "CHR ''='' \<in> set (short_of line)"
proof -
  let ?P = "\<lambda>c. c \<noteq> CHR ''=''"
  from assms(1) have ne: "dropWhile ?P line \<noteq> []"
    by (auto simp: dropWhile_eq_Nil_conv)
  from hd_dropWhile [OF ne] have "hd (dropWhile ?P line) = CHR ''=''"
    by simp
  with ne obtain rest where rest: "dropWhile ?P line = CHR ''='' # rest"
    by (cases "dropWhile ?P line") auto
  have "count_list (takeWhile ?P line) CHR ''='' = 0"
    by (auto simp: count_list_0_iff dest: set_takeWhileD)
  moreover have "count_list line CHR ''='' =
      count_list (takeWhile ?P line @ dropWhile ?P line) CHR ''=''"
    by simp
  moreover have "count_list (takeWhile ?P line @ dropWhile ?P line) CHR ''='' =
      count_list (takeWhile ?P line) CHR ''='' + count_list (dropWhile ?P line) CHR ''=''"
    by (rule count_list_append)
  ultimately have "count_list line CHR ''='' = count_list (dropWhile ?P line) CHR ''=''"
    by (simp only: add_0)
  with assms(2) rest have "count_list rest CHR ''='' \<noteq> 0"
    by simp
  then have "CHR ''='' \<in> set rest"
    by (simp add: count_list_0_iff)
  then have "CHR ''='' \<in> set (strip rest)"
    using equals_plain(1) by (rule strip_keeps)
  then show ?thesis
    by (simp add: short_of_def rest remove_char_def)
qed

lemma no_equals: "count_list line CHR ''='' = 1 \<Longrightarrow> CHR ''='' \<in> set line"
proof (rule ccontr)
  assume "count_list line CHR ''='' = 1" and "CHR ''='' \<notin> set line"
  then show False
    by (simp add: count_list_0_iff [THEN iffD2])
qed

lemma load_line_blank: "blank raw \<Longrightarrow> load_line n raw st = st"
  by (simp add: load_line_def blank_def Let_def)

lemma load_line_malformed:
  assumes "\<not> blank raw" and "malformed (fst st) raw"
  shows "\<exists>msg. load_line n raw st = (fst st, snd st @ [msg]) \<and> message_line msg = Some n"
proof -
  let ?line = "clean_line raw"
  from assms(1) have nb: "?line \<noteq> []" "\<not> startswith_hash ?line"
    by (simp_all add: blank_def)
  show ?thesis
  proof (cases "CHR ''='' \<in> set ?line")
    case False
    with nb show ?thesis
      by (simp add: load_line_def Let_def)
  next
    case True
    have bad: "\<not> islower (full_of ?line) \<or> \<not> islower (short_of ?line) \<or>
        \<not> list_all allowed_chars (full_of ?line) \<or> \<not> list_all allowed_chars (short_of ?line) \<or>
        map_of (fst st) (full_of ?line) \<noteq> None \<or> short_of ?line \<in> set (map snd (fst st))"
    proof (cases "count_list ?line CHR ''='' = 1")
      case False
      from second_equals [OF True False] equals_plain(2)
      have "\<not> list_all allowed_chars (short_of ?line)"
        by (auto simp: list_all_iff)
      then show ?thesis
        by blast
    next
      case one: True
      with assms(2) show ?thesis
        by (auto simp: malformed_def map_of_eq_None_iff)
    qed
    with nb True show ?thesis
      by (auto simp: load_line_def Let_def)
  qed
qed

lemma load_line_good:
  assumes "\<not> blank raw" and "\<not> malformed (fst st) raw"
  shows "load_line n raw st =
     (fst st @ [(full_of (clean_line raw), short_of (clean_line raw))], snd st)"
proof -
  let ?line = "clean_line raw"
  from assms(1) have nb: "?line \<noteq> []" "\<not> startswith_hash ?line"
    by (simp_all add: blank_def)
  from assms(2) have ok: "count_list ?line CHR ''='' = 1" "islower (full_of ?line)"
    "islower (short_of ?line)" "list_all allowed_chars (full_of ?line)"
    "list_all allowed_chars (short_of ?line)" "full_of ?line \<notin> fst ` set (fst st)"
    "short_of ?line \<notin> snd ` set (fst st)"
    by (simp_all add: malformed_def)
  from ok(1) have eq: "CHR ''='' \<in> set ?line"
    by (rule no_equals)
  from ok(6) have new: "map_of (fst st) (full_of ?line) = None"
    by (simp add: map_of_eq_None_iff)
  from nb eq ok new update_new [OF ok(6)] show ?thesis
    by (simp add: load_line_def Let_def)
qed




lemma load_line_well_formed:
  assumes "well_formed (fst st)"
  shows "well_formed (fst (load_line n raw st))"
proof (cases "blank raw \<or> malformed (fst st) raw")
  case True
  then show ?thesis
  proof
    assume "blank raw"
    then show ?thesis
      using assms by (simp add: load_line_blank)
  next
    assume m: "malformed (fst st) raw"
    show ?thesis
    proof (cases "blank raw")
      case True
      then show ?thesis
        using assms by (simp add: load_line_blank)
    next
      case False
      from load_line_malformed [OF False m, of n] assms show ?thesis
        by auto
    qed
  qed
next
  case False
  then have nb: "\<not> blank raw" and good: "\<not> malformed (fst st) raw"
    by simp_all
  from good have "legal_word (full_of (clean_line raw))" "legal_word (short_of (clean_line raw))"
    "full_of (clean_line raw) \<notin> fst ` set (fst st)"
    "short_of (clean_line raw) \<notin> snd ` set (fst st)"
    by (simp_all add: malformed_def legal_word_def full_of_def short_of_def remove_char_def)
  with assms show ?thesis
    by (simp add: load_line_good [OF nb good] well_formed_def)
qed

lemma load_loop_well_formed:
  "well_formed (fst st) \<Longrightarrow> well_formed (fst (load_loop ls n st))"
  by (induction ls arbitrary: n st) (simp_all add: load_line_well_formed)

lemma load_shortcuts_well_formed: "well_formed (fst (load_shortcuts contents))"
proof (cases contents)
  case None
  then show ?thesis
    by (simp add: load_shortcuts_def well_formed_def)
next
  case (Some ls)
  have "well_formed (fst ([], []))"
    by (simp add: well_formed_def)
  from load_loop_well_formed [OF this] Some show ?thesis
    by (simp add: load_shortcuts_def)
qed





subsection \<open>Abbreviations of single words\<close>

lemma allowed_space: "allowed_chars c \<Longrightarrow> isspace c \<Longrightarrow> c = CHR '' ''"
  by (auto simp: allowed_chars_def BAUDOT_TABLE_def isspace_def split: if_splits)

lemma split_words_plain:
  "\<not> list_ex isspace w \<Longrightarrow> split_words w word = (if word @ w = [] then [] else [word @ w])"
  by (induction w arbitrary: word) auto

lemma legal_word_split: "legal_word w \<Longrightarrow> split w = [w]"
proof -
  assume l: "legal_word w"
  then have "w \<noteq> []"
    by (auto simp: legal_word_def islower_def)
  moreover from l have "\<not> list_ex isspace w"
    using allowed_space by (auto simp: legal_word_def list_ex_iff list_all_iff)
  ultimately show ?thesis
    by (simp add: split_def split_words_plain)
qed

lemma well_formed_entry:
  "well_formed d \<Longrightarrow> map_of d w = Some v \<Longrightarrow> legal_word w \<and> legal_word v"
  by (auto simp: well_formed_def list_all_iff dest!: map_of_SomeD)

text \<open>
  The specification's abbreviation symmetry, for the dictionary that \<^verbatim>\<open>load_shortcuts\<close>
  returns: a single word that is a key of the dictionary is encoded as its shortcut,
  and the shortcut is decoded as the word.
\<close>

theorem abbreviation_symmetry:
  "map_of (fst (load_shortcuts contents)) w = Some v \<longrightarrow>
     apply_shortcuts_encode (fst (load_shortcuts contents)) w = v \<and>
     apply_shortcuts_decode (fst (load_shortcuts contents)) v = w"
proof
  let ?d = "fst (load_shortcuts contents)"
  assume look: "map_of ?d w = Some v"
  have wf: "well_formed ?d"
    by (rule load_shortcuts_well_formed)
  from well_formed_entry [OF wf look] have w: "split w = [w]" and v: "split v = [v]"
    by (simp_all add: legal_word_split)
  from wf have keys: "distinct (map fst ?d)" and vals: "distinct (map snd ?d)"
    by (simp_all add: well_formed_def)
  have "map_of (REVERSE_SHORTCUTS ?d) v = Some w"
    unfolding REVERSE_SHORTCUTS_def reverse_dict_distinct [OF vals]
    using look by (simp only: map_of_swap [OF keys vals])
  with look w v
  show "apply_shortcuts_encode ?d w = v \<and> apply_shortcuts_decode ?d v = w"
    by (simp add: apply_shortcuts_encode_def apply_shortcuts_decode_def dict_get_def)
qed

text \<open>Abbreviation symmetry for the file with the single line \<open>dispose=dpo\<close>.\<close>

theorem abbreviation_symmetry_witness:
  "map_of (fst (load_shortcuts (Some [''dispose=dpo'']))) ''dispose'' = Some ''dpo'' \<and>
   apply_shortcuts_encode (fst (load_shortcuts (Some [''dispose=dpo'']))) ''dispose'' = ''dpo'' \<and>
   apply_shortcuts_decode (fst (load_shortcuts (Some [''dispose=dpo'']))) ''dpo'' = ''dispose''"
proof -
  have "map_of (fst (load_shortcuts (Some [''dispose=dpo'']))) ''dispose'' = Some ''dpo''"
    by code_simp
  with abbreviation_symmetry [of "Some [''dispose=dpo'']" "''dispose''" "''dpo''"] show ?thesis
    by blast
qed

end
